theory Spec2Isabelle
  imports Complex_Main "HOL-Library.AList" "HOL-Library.Sublist"
begin

section \<open>Paths\<close>

text \<open>
  Every path of the program derives from \<open>process.cwd()\<close> through \<open>path.join\<close> and
  \<open>path.resolve\<close>, so it is absolute and normalised. A path is kept as the list of its
  components below the root; \<open>path.join\<close> and \<open>path.resolve\<close> are Node's POSIX versions,
  which normalise lexically (empty and \<open>.\<close> segments vanish, \<open>..\<close> drops a component
  and stays at the root).
\<close>

type_synonym path = "string list"

fun split_slash :: "string \<Rightarrow> string list" where
  "split_slash [] = [[]]"
| "split_slash (c # cs) =
     (if c = CHR ''/'' then [] # split_slash cs
      else (case split_slash cs of
              [] \<Rightarrow> [[c]]
            | w # ws \<Rightarrow> (c # w) # ws))"

fun normalize :: "path \<Rightarrow> string list \<Rightarrow> path" where
  "normalize p [] = p"
| "normalize p (s # ss) =
     (if s = [] \<or> s = ''.'' then normalize p ss
      else if s = ''..'' then normalize (butlast p) ss
      else normalize (p @ [s]) ss)"

definition path_join :: "path \<Rightarrow> string \<Rightarrow> path" where
  "path_join p s = normalize p (split_slash s)"

definition path_resolve :: "path \<Rightarrow> string \<Rightarrow> path" where
  "path_resolve p s =
     (if s \<noteq> [] \<and> hd s = CHR ''/'' then normalize [] (split_slash s)
      else normalize p (split_slash s))"

definition path_basename :: "path \<Rightarrow> string" where
  "path_basename p = (if p = [] then [] else last p)"

definition show_path :: "path \<Rightarrow> string" where
  "show_path p = (if p = [] then ''/'' else concat (map (\<lambda>c. CHR ''/'' # c) p))"

section \<open>JSON values and JavaScript objects\<close>

datatype number = Finite rat | Infinity bool

datatype json =
    JNull
  | JBool bool
  | JNum number
  | JStr string
  | JArr "json list"
  | JObj "(string \<times> json) list"

text \<open>
  \<open>JObj kvs\<close> lists the members in the order of the JSON text. The object that
  \<open>JSON.parse\<close> builds defines them one after the other: a repeated key keeps its place
  and takes the later value, and the own keys enumerate with the array indices first, in
  ascending order, then the other keys in the order of their creation.
\<close>

definition digit_val :: "char \<Rightarrow> int option" where
  "digit_val c = map_of (zip ''0123456789'' [0, 1, 2, 3, 4, 5, 6, 7, 8, 9]) c"

fun decimal :: "int \<Rightarrow> string \<Rightarrow> int option" where
  "decimal acc [] = Some acc"
| "decimal acc (c # cs) =
     (case digit_val c of None \<Rightarrow> None | Some d \<Rightarrow> decimal (10 * acc + d) cs)"

definition array_index :: "string \<Rightarrow> int option" where
  "array_index s =
     (if s = [] \<or> (hd s = CHR ''0'' \<and> s \<noteq> ''0'') then None
      else (case decimal 0 s of
              None \<Rightarrow> None
            | Some n \<Rightarrow> if n < 4294967295 then Some n else None))"

fun insert_index :: "int \<Rightarrow> string \<times> 'v \<Rightarrow> (string \<times> 'v) list \<Rightarrow> (string \<times> 'v) list" where
  "insert_index i kv [] = [kv]"
| "insert_index i kv (e # es) =
     (case array_index (fst e) of
        None \<Rightarrow> kv # e # es
      | Some j \<Rightarrow> if j < i then e # insert_index i kv es else kv # e # es)"

definition define_property :: "(string \<times> 'v) list \<Rightarrow> string \<times> 'v \<Rightarrow> (string \<times> 'v) list" where
  "define_property obj kv =
     (if fst kv \<in> fst ` set obj then AList.update (fst kv) (snd kv) obj
      else (case array_index (fst kv) of
              None \<Rightarrow> obj @ [kv]
            | Some i \<Rightarrow> insert_index i kv obj))"

definition object_of :: "(string \<times> 'v) list \<Rightarrow> (string \<times> 'v) list" where
  "object_of kvs = foldl define_property [] kvs"

definition digit_char :: "nat \<Rightarrow> char" where
  "digit_char n = ''0123456789'' ! (n mod 10)"

fun show_nat :: "nat \<Rightarrow> string" where
  "show_nat n = (if n < 10 then [digit_char n] else show_nat (n div 10) @ [digit_char (n mod 10)])"

declare show_nat.simps [simp del]

fun indexed :: "nat \<Rightarrow> 'a list \<Rightarrow> (string \<times> 'a) list" where
  "indexed i [] = []"
| "indexed i (x # xs) = (show_nat i, x) # indexed (Suc i) xs"

text \<open>The own enumerable properties that \<open>{...v}\<close> copies, in enumeration order.\<close>

fun own_properties :: "json \<Rightarrow> (string \<times> json) list" where
  "own_properties (JObj kvs) = object_of kvs"
| "own_properties (JArr xs) = object_of (indexed 0 xs)"
| "own_properties (JStr s) = object_of (indexed 0 (map (\<lambda>c. JStr [c]) s))"
| "own_properties _ = []"

fun truthy :: "json \<Rightarrow> bool" where
  "truthy JNull = False"
| "truthy (JBool b) = b"
| "truthy (JNum (Finite r)) = (r \<noteq> 0)"
| "truthy (JNum (Infinity _)) = True"
| "truthy (JStr s) = (s \<noteq> [])"
| "truthy (JArr _) = True"
| "truthy (JObj _) = True"

datatype js_error =
    SyntaxError string
  | TypeError string
  | RangeError string
  | SystemError string string

fun message :: "js_error \<Rightarrow> string" where
  "message (SyntaxError m) = m"
| "message (TypeError m) = m"
| "message (RangeError m) = m"
| "message (SystemError code m) = m"

text \<open>\<open>pkg.key\<close>: reading a property of \<open>null\<close> throws; a missing one is \<open>undefined\<close>.\<close>

fun get_property :: "json \<Rightarrow> string \<Rightarrow> js_error + json option" where
  "get_property JNull key =
     Inl (TypeError (''Cannot read properties of null (reading '' @ key @ '')''))"
| "get_property (JObj kvs) key = Inr (map_of (object_of kvs) key)"
| "get_property _ key = Inr None"

text \<open>\<open>v || {}\<close>\<close>

fun or_empty :: "json option \<Rightarrow> json" where
  "or_empty None = JObj []"
| "or_empty (Some v) = (if truthy v then v else JObj [])"

fun join_words :: "string list \<Rightarrow> string" where
  "join_words [] = []"
| "join_words [x] = x"
| "join_words (x # y # ys) = x @ '' '' @ join_words (y # ys)"

section \<open>The world: filesystem, console and calls of the mutating operations\<close>

datatype level = LOG | WARN | ERROR

datatype stdio = Ignore | Inherit

datatype file_kind = RegularFile | Directory | SymbolicLink | Special

text \<open>
  The calls that change the world, in the order they are issued: what the repository's
  tests collect as \<open>rmCalls\<close>, \<open>mkdirCalls\<close>, \<open>copyCalls\<close> and \<open>spawnCalls\<close>.
\<close>

datatype call =
    RmSync path
  | MkdirSync path
  | CopyFileSync path path
  | SpawnSync string "string list" path stdio

record 'fs world =
  fs :: 'fs
  calls :: "call list"
  log_calls :: "(string \<times> level \<times> bool) list"
  console :: "(level \<times> string) list"

text \<open>
  What the program asks of Node: the working directory, the \<open>fs\<close> functions it calls
  (each one throws or returns), \<open>child_process.spawnSync\<close> (which reports a failure in
  its result: \<open>status\<close> is \<open>null\<close> when the command did not exit by itself),
  \<open>JSON.parse\<close>, and the depth of calls the engine allows before a
  \<open>RangeError\<close>. \<open>mkdirSync\<close> is the call with \<open>recursive: true\<close>, \<open>rmSync\<close> the
  one with \<open>recursive: true, force: true\<close>.
\<close>

record 'fs port =
  cwd :: path
  stack_limit :: nat
  JSON_parse :: "string \<Rightarrow> js_error + json"
  existsSync :: "path \<Rightarrow> 'fs \<Rightarrow> bool"
  lstatSync :: "path \<Rightarrow> 'fs \<Rightarrow> js_error + file_kind"
  statSync :: "path \<Rightarrow> 'fs \<Rightarrow> js_error + file_kind"
  readdirSync :: "path \<Rightarrow> 'fs \<Rightarrow> js_error + string list"
  readFileSync :: "path \<Rightarrow> 'fs \<Rightarrow> js_error + string"
  mkdirSync :: "path \<Rightarrow> 'fs \<Rightarrow> js_error + 'fs"
  copyFileSync :: "path \<Rightarrow> path \<Rightarrow> 'fs \<Rightarrow> js_error + 'fs"
  rmSync :: "path \<Rightarrow> 'fs \<Rightarrow> js_error + 'fs"
  spawnSync :: "string \<Rightarrow> string list \<Rightarrow> path \<Rightarrow> stdio \<Rightarrow> 'fs \<Rightarrow> int option \<times> 'fs"

datatype 'w outcome = Returns 'w | Throws js_error 'w

definition then_do :: "'w outcome \<Rightarrow> ('w \<Rightarrow> 'w outcome) \<Rightarrow> 'w outcome" where
  "then_do r f = (case r of Returns w \<Rightarrow> f w | Throws e w \<Rightarrow> Throws e w)"

fun forEach :: "('a \<Rightarrow> 'w \<Rightarrow> 'w outcome) \<Rightarrow> 'a list \<Rightarrow> 'w \<Rightarrow> 'w outcome" where
  "forEach f [] w = Returns w"
| "forEach f (x # xs) w =
     (case f x w of Returns w' \<Rightarrow> forEach f xs w' | Throws e w' \<Rightarrow> Throws e w')"

definition do_mkdir :: "'fs port \<Rightarrow> path \<Rightarrow> 'fs world \<Rightarrow> 'fs world outcome" where
  "do_mkdir P p w =
     (let w1 = w\<lparr>calls := calls w @ [MkdirSync p]\<rparr>
      in case mkdirSync P p (fs w) of
           Inl e \<Rightarrow> Throws e w1
         | Inr f \<Rightarrow> Returns (w1\<lparr>fs := f\<rparr>))"

definition do_copyFile :: "'fs port \<Rightarrow> path \<Rightarrow> path \<Rightarrow> 'fs world \<Rightarrow> 'fs world outcome" where
  "do_copyFile P a b w =
     (let w1 = w\<lparr>calls := calls w @ [CopyFileSync a b]\<rparr>
      in case copyFileSync P a b (fs w) of
           Inl e \<Rightarrow> Throws e w1
         | Inr f \<Rightarrow> Returns (w1\<lparr>fs := f\<rparr>))"

definition do_rm :: "'fs port \<Rightarrow> path \<Rightarrow> 'fs world \<Rightarrow> 'fs world outcome" where
  "do_rm P p w =
     (let w1 = w\<lparr>calls := calls w @ [RmSync p]\<rparr>
      in case rmSync P p (fs w) of
           Inl e \<Rightarrow> Throws e w1
         | Inr f \<Rightarrow> Returns (w1\<lparr>fs := f\<rparr>))"

definition do_spawn ::
  "'fs port \<Rightarrow> string \<Rightarrow> string list \<Rightarrow> path \<Rightarrow> stdio \<Rightarrow> 'fs world \<Rightarrow> int option \<times> 'fs world" where
  "do_spawn P cmd args dir io w =
     (let w1 = w\<lparr>calls := calls w @ [SpawnSync cmd args dir io]\<rparr>;
          (status, f) = spawnSync P cmd args dir io (fs w)
      in (status, w1\<lparr>fs := f\<rparr>))"

section \<open>utils/log\<close>

definition log_msg :: "string \<Rightarrow> level \<Rightarrow> bool \<Rightarrow> 'fs world \<Rightarrow> 'fs world" where
  "log_msg msg lvl silently w =
     (let w1 = w\<lparr>log_calls := log_calls w @ [(msg, lvl, silently)]\<rparr>
      in if \<not> silently then w1\<lparr>console := console w1 @ [(lvl, msg)]\<rparr> else w1)"

section \<open>lib/index\<close>

primrec copyRecursiveSync ::
  "nat \<Rightarrow> 'fs port \<Rightarrow> path \<Rightarrow> path \<Rightarrow> 'fs world \<Rightarrow> 'fs world outcome" where
  "copyRecursiveSync 0 P src dest w =
     Throws (RangeError ''Maximum call stack size exceeded'') w"
| "copyRecursiveSync (Suc depth) P src dest w =
     then_do (if \<not> existsSync P dest (fs w) then do_mkdir P dest w else Returns w)
       (\<lambda>w1. case readdirSync P src (fs w1) of
                Inl e \<Rightarrow> Throws e w1
              | Inr files \<Rightarrow>
                  forEach
                    (\<lambda>file w2.
                       let srcPath = path_join src file;
                           destPath = path_join dest file
                       in case statSync P srcPath (fs w2) of
                            Inl e \<Rightarrow> Throws e w2
                          | Inr stat \<Rightarrow>
                              if stat = Directory
                              then copyRecursiveSync depth P srcPath destPath w2
                              else do_copyFile P srcPath destPath w2)
                    files w1)"

definition installDependencies :: "'fs port \<Rightarrow> path \<Rightarrow> bool \<Rightarrow> bool \<Rightarrow> 'fs world \<Rightarrow> 'fs world outcome" where
  "installDependencies P dest dev silent w =
     (let pkgPath = path_join dest ''package.json''
      in if \<not> existsSync P pkgPath (fs w)
         then Returns (log_msg (''[SKIP] No package.json in '' @ show_path dest) LOG silent w)
         else
           let nmPath = path_join dest ''node_modules''
           in if existsSync P nmPath (fs w)
              then Returns (log_msg (''[SKIP] Dependencies already present for '' @ path_basename dest)
                              LOG silent w)
              else
                let args = [''install'', ''--no-audit'', ''--no-fund''] @
                             (if \<not> dev then [''--production''] else []);
                    w1 = log_msg (''[INSTALL] Running npm '' @ join_words args @ '' in '' @
                                path_basename dest) LOG silent w;
                    (status, w2) = do_spawn P ''npm'' args dest
                                     (if silent then Ignore else Inherit) w1
                in if status \<noteq> Some 0
                   then Returns (log_msg (''[ERROR] Failed to install dependencies for '' @
                                        path_basename dest) ERROR silent w2)
                   else Returns w2)"

text \<open>
  The filter's predicate, \<open>typeof version === 'string' && version.startsWith('file:')\<close>,
  and \<open>version.replace(/^file:/, '')\<close>.
\<close>

definition is_file_reference :: "string \<times> json \<Rightarrow> bool" where
  "is_file_reference e = (case snd e of JStr version \<Rightarrow> take 5 version = ''file:'' | _ \<Rightarrow> False)"

definition strip_file_prefix :: "string \<Rightarrow> string" where
  "strip_file_prefix version = (if take 5 version = ''file:'' then drop 5 version else version)"

text \<open>
  The body of the \<open>forEach\<close> callback. Called on a value that is not a string it would
  throw at \<open>version.replace\<close>.
\<close>

definition unlink_entry ::
  "'fs port \<Rightarrow> bool \<Rightarrow> bool \<Rightarrow> bool \<Rightarrow> path \<Rightarrow> path \<Rightarrow> string \<times> json \<Rightarrow> 'fs world
     \<Rightarrow> 'fs world outcome" where
  "unlink_entry P silent noInstall dev projectRoot nodeModulesDir e w =
     (case snd e of
        JStr version \<Rightarrow>
          let pkgName = fst e;
              relativePath = strip_file_prefix version;
              src = path_resolve projectRoot relativePath;
              dest = path_join nodeModulesDir pkgName
          in if \<not> existsSync P dest (fs w)
             then Returns (log_msg (''[WARN] '' @ pkgName @ '' not found in node_modules'') WARN silent w)
             else (case lstatSync P dest (fs w) of
                     Inl err \<Rightarrow> Throws err w
                   | Inr stat \<Rightarrow>
                       if stat \<noteq> SymbolicLink
                       then Returns (log_msg (''[SKIP] '' @ pkgName @ '' is not a symlink'') LOG silent w)
                       else
                         let w1 = log_msg (''[REPLACE] '' @ pkgName @
                                         '': replacing symlink with copy from '' @ relativePath)
                                    LOG silent w
                         in then_do (do_rm P dest w1)
                              (\<lambda>w2. then_do (copyRecursiveSync (stack_limit P) P src dest w2)
                                 (\<lambda>w3. if \<not> noInstall
                                       then installDependencies P dest dev silent w3
                                       else Returns w3)))
      | _ \<Rightarrow> Throws (TypeError ''version.replace is not a function'') w)"

text \<open>
  \<open>{...(pkg.dependencies || {}), ...(pkg.devDependencies || {}),
  ...(pkg.peerDependencies || {}), ...(pkg.optionalDependencies || {})}\<close>
\<close>

definition all_dependencies :: "json \<Rightarrow> js_error + (string \<times> json) list" where
  "all_dependencies pkg =
     (case get_property pkg ''dependencies'' of
        Inl e \<Rightarrow> Inl e
      | Inr deps \<Rightarrow>
     (case get_property pkg ''devDependencies'' of
        Inl e \<Rightarrow> Inl e
      | Inr devDeps \<Rightarrow>
     (case get_property pkg ''peerDependencies'' of
        Inl e \<Rightarrow> Inl e
      | Inr peerDeps \<Rightarrow>
     (case get_property pkg ''optionalDependencies'' of
        Inl e \<Rightarrow> Inl e
      | Inr optDeps \<Rightarrow>
          Inr (foldl define_property []
                 (own_properties (or_empty deps) @ own_properties (or_empty devDeps) @
                  own_properties (or_empty peerDeps) @ own_properties (or_empty optDeps)))))))"

text \<open>
  The loop over \<open>Object.entries(allDeps)\<close> after the filter.
\<close>

definition unlink_all ::
  "'fs port \<Rightarrow> bool \<Rightarrow> bool \<Rightarrow> bool \<Rightarrow> (string \<times> json) list \<Rightarrow> 'fs world \<Rightarrow> 'fs world outcome" where
  "unlink_all P silent noInstall dev allDeps w =
     (let projectRoot = cwd P;
          nodeModulesDir = path_join projectRoot ''node_modules''
      in forEach (unlink_entry P silent noInstall dev projectRoot nodeModulesDir)
           (filter is_file_reference allDeps) w)"

text \<open>
  An options object is the list of its properties; the parameter
  \<open>{ silent = false, noInstall = false, dev = false } = {}\<close> reads three of them, each
  \<open>false\<close> when the object has no such property.
\<close>

type_synonym options = "(string \<times> bool) list"

definition option_or_false :: "options \<Rightarrow> string \<Rightarrow> bool" where
  "option_or_false obj key = (case map_of obj key of None \<Rightarrow> False | Some b \<Rightarrow> b)"

definition unlinkLocalDependencies :: "'fs port \<Rightarrow> options \<Rightarrow> 'fs world \<Rightarrow> 'fs world outcome" where
  "unlinkLocalDependencies P opts w =
     (let silent = option_or_false opts ''silent'';
          noInstall = option_or_false opts ''noInstall'';
          dev = option_or_false opts ''dev'';
          pkgJsonPath = path_join (cwd P) ''package.json''
      in case readFileSync P pkgJsonPath (fs w) of
           Inl e \<Rightarrow> Throws e w
         | Inr text \<Rightarrow>
        (case JSON_parse P text of
           Inl e \<Rightarrow> Throws e w
         | Inr pkg \<Rightarrow>
        (case all_dependencies pkg of
           Inl e \<Rightarrow> Throws e w
         | Inr allDeps \<Rightarrow> unlink_all P silent noInstall dev allDeps w)))"

section \<open>bin/cli\<close>

definition usage :: string where
  "usage =
     ''Usage: resolve-local-dependencies [options]'' @ [CHR 0x0A] @ [CHR 0x0A] @
     ''Options:'' @ [CHR 0x0A] @
     ''  -h, --help         Show this help message'' @ [CHR 0x0A] @
     ''  --silent           Suppress non-error output'' @ [CHR 0x0A] @
     ''  --no-install       Skip npm install after unlinking'' @ [CHR 0x0A] @
     ''  --dev              Use development mode (include devDependencies)''"

text \<open>The script, from the arguments after \<open>node cli\<close> to the world it leaves and its exit status.\<close>

definition cli :: "'fs port \<Rightarrow> string list \<Rightarrow> 'fs world \<Rightarrow> 'fs world \<times> int" where
  "cli P args w =
     (if ''--help'' \<in> set args \<or> ''-h'' \<in> set args
      then (log_msg usage LOG False w, 0)
      else
        let silently = (''--silent'' \<in> set args);
            install = (''--no-install'' \<in> set args);
            dev = (''--dev'' \<in> set args)
        in case unlinkLocalDependencies P
                  [(''silently'', silently), (''install'', install), (''dev'', dev)] w of
             Returns w1 \<Rightarrow> (log_msg ''Local dependencies unlinked successfully.'' LOG silently w1, 0)
           | Throws error w1 \<Rightarrow>
               (log_msg (''Error unlinking local dependencies: '' @ message error) ERROR silently w1, 1))"

section \<open>A POSIX filesystem\<close>

text \<open>
  The filesystem the program runs on: every entry under its physical path, a regular file
  with its bytes, a directory, or a symbolic link with its target. The root is a directory.
  A lookup by name walks the path from the root and follows each symbolic link it meets,
  at most 40 of them (the kernel's bound, after which it reports \<open>ELOOP\<close>).
\<close>

datatype node = File string | Dir | Link path

type_synonym filesystem = "(path \<times> node) list"

definition lookup :: "filesystem \<Rightarrow> path \<Rightarrow> node option" where
  "lookup f p = (if p = [] then Some Dir else map_of f p)"

fun walk :: "nat \<Rightarrow> filesystem \<Rightarrow> path \<Rightarrow> string list \<Rightarrow> path option" where
  "walk k f cur [] = Some cur"
| "walk k f cur (c # cs) =
     (case lookup f (cur @ [c]) of
        None \<Rightarrow> None
      | Some (File b) \<Rightarrow> if cs = [] then Some (cur @ [c]) else None
      | Some Dir \<Rightarrow> walk k f (cur @ [c]) cs
      | Some (Link t) \<Rightarrow> (case k of 0 \<Rightarrow> None | Suc k' \<Rightarrow> walk k' f [] (t @ cs)))"

definition realpath :: "filesystem \<Rightarrow> path \<Rightarrow> path option" where
  "realpath f p = walk 40 f [] p"

text \<open>Where the entry a path names lives, the path's last component not followed.\<close>

definition locate :: "filesystem \<Rightarrow> path \<Rightarrow> path option" where
  "locate f p =
     (if p = [] then Some []
      else (case realpath f (butlast p) of
              None \<Rightarrow> None
            | Some d \<Rightarrow> if lookup f d = Some Dir then Some (d @ [last p]) else None))"

fun kind :: "node \<Rightarrow> file_kind" where
  "kind (File b) = RegularFile"
| "kind Dir = Directory"
| "kind (Link t) = SymbolicLink"

definition ENOENT :: js_error where
  "ENOENT = SystemError ''ENOENT'' ''ENOENT: no such file or directory''"

definition ENOTDIR :: js_error where
  "ENOTDIR = SystemError ''ENOTDIR'' ''ENOTDIR: not a directory''"

definition EISDIR :: js_error where
  "EISDIR = SystemError ''EISDIR'' ''EISDIR: illegal operation on a directory''"

definition EEXIST :: js_error where
  "EEXIST = SystemError ''EEXIST'' ''EEXIST: file already exists''"

definition ELOOP :: js_error where
  "ELOOP = SystemError ''ELOOP'' ''ELOOP: too many symbolic links encountered''"

definition posix_existsSync :: "path \<Rightarrow> filesystem \<Rightarrow> bool" where
  "posix_existsSync p f = (realpath f p \<noteq> None)"

definition posix_statSync :: "path \<Rightarrow> filesystem \<Rightarrow> js_error + file_kind" where
  "posix_statSync p f =
     (case realpath f p of
        None \<Rightarrow> Inl ENOENT
      | Some q \<Rightarrow> (case lookup f q of None \<Rightarrow> Inl ENOENT | Some n \<Rightarrow> Inr (kind n)))"

definition posix_lstatSync :: "path \<Rightarrow> filesystem \<Rightarrow> js_error + file_kind" where
  "posix_lstatSync p f =
     (case locate f p of
        None \<Rightarrow> Inl ENOENT
      | Some q \<Rightarrow> (case lookup f q of None \<Rightarrow> Inl ENOENT | Some n \<Rightarrow> Inr (kind n)))"

definition children :: "filesystem \<Rightarrow> path \<Rightarrow> string list" where
  "children f d = remdups (map (\<lambda>e. last (fst e)) (filter (\<lambda>e. fst e \<noteq> [] \<and> butlast (fst e) = d) f))"

definition posix_readdirSync :: "path \<Rightarrow> filesystem \<Rightarrow> js_error + string list" where
  "posix_readdirSync p f =
     (case realpath f p of
        None \<Rightarrow> Inl ENOENT
      | Some q \<Rightarrow> if lookup f q = Some Dir then Inr (children f q) else Inl ENOTDIR)"

definition posix_readFileSync :: "path \<Rightarrow> filesystem \<Rightarrow> js_error + string" where
  "posix_readFileSync p f =
     (case realpath f p of
        None \<Rightarrow> Inl ENOENT
      | Some q \<Rightarrow> (case lookup f q of Some (File b) \<Rightarrow> Inr b | _ \<Rightarrow> Inl EISDIR))"

fun mkdirp :: "filesystem \<Rightarrow> path \<Rightarrow> string list \<Rightarrow> js_error + filesystem" where
  "mkdirp f cur [] = Inr f"
| "mkdirp f cur (c # cs) =
     (case lookup f (cur @ [c]) of
        None \<Rightarrow> mkdirp (AList.update (cur @ [c]) Dir f) (cur @ [c]) cs
      | Some Dir \<Rightarrow> mkdirp f (cur @ [c]) cs
      | Some (File b) \<Rightarrow> Inl (if cs = [] then EEXIST else ENOTDIR)
      | Some (Link t) \<Rightarrow>
          (case realpath f t of
             None \<Rightarrow> Inl (if cs = [] then EEXIST else ENOENT)
           | Some q \<Rightarrow>
               if lookup f q = Some Dir then mkdirp f q cs
               else Inl (if cs = [] then EEXIST else ENOTDIR)))"

definition posix_mkdirSync :: "path \<Rightarrow> filesystem \<Rightarrow> js_error + filesystem" where
  "posix_mkdirSync p f = mkdirp f [] p"

text \<open>Where a write to a path lands: through symbolic links, to a file or to a free name.\<close>

fun write_target :: "nat \<Rightarrow> filesystem \<Rightarrow> path \<Rightarrow> js_error + path" where
  "write_target k f p =
     (case locate f p of
        None \<Rightarrow> Inl ENOENT
      | Some q \<Rightarrow>
          (case lookup f q of
             None \<Rightarrow> Inr q
           | Some (File b) \<Rightarrow> Inr q
           | Some Dir \<Rightarrow> Inl EISDIR
           | Some (Link t) \<Rightarrow> (case k of 0 \<Rightarrow> Inl ELOOP | Suc k' \<Rightarrow> write_target k' f t)))"

declare write_target.simps [simp del]

definition posix_copyFileSync :: "path \<Rightarrow> path \<Rightarrow> filesystem \<Rightarrow> js_error + filesystem" where
  "posix_copyFileSync a b f =
     (case realpath f a of
        None \<Rightarrow> Inl ENOENT
      | Some q \<Rightarrow>
          (case lookup f q of
             Some (File bytes) \<Rightarrow>
               (case write_target 40 f b of
                  Inl e \<Rightarrow> Inl e
                | Inr t \<Rightarrow> if t = q then Inr f else Inr (AList.update t (File bytes) f))
           | _ \<Rightarrow> Inl EISDIR))"

definition posix_rmSync :: "path \<Rightarrow> filesystem \<Rightarrow> js_error + filesystem" where
  "posix_rmSync p f =
     (case locate f p of
        None \<Rightarrow> Inr f
      | Some q \<Rightarrow> Inr (filter (\<lambda>e. \<not> prefix q (fst e)) f))"

text \<open>
  The port over this filesystem. The working directory, the call depth, \<open>JSON.parse\<close> and
  what the \<open>npm\<close> command does to the filesystem stay parameters.
\<close>

definition posix ::
  "path \<Rightarrow> nat \<Rightarrow> (string \<Rightarrow> js_error + json) \<Rightarrow>
   (string \<Rightarrow> string list \<Rightarrow> path \<Rightarrow> stdio \<Rightarrow> filesystem \<Rightarrow> int option \<times> filesystem) \<Rightarrow>
   filesystem port" where
  "posix dir limit parse spawn =
     \<lparr> cwd = dir, stack_limit = limit, JSON_parse = parse,
       existsSync = posix_existsSync, lstatSync = posix_lstatSync, statSync = posix_statSync,
       readdirSync = posix_readdirSync, readFileSync = posix_readFileSync,
       mkdirSync = posix_mkdirSync, copyFileSync = posix_copyFileSync, rmSync = posix_rmSync,
       spawnSync = spawn \<rparr>"

section \<open>Observations\<close>

fun world_of :: "'w outcome \<Rightarrow> 'w" where
  "world_of (Returns w) = w"
| "world_of (Throws e w) = w"

fun returned :: "'w outcome \<Rightarrow> bool" where
  "returned (Returns w) = True"
| "returned (Throws e w) = False"

fun is_spawn :: "call \<Rightarrow> bool" where
  "is_spawn (SpawnSync cmd args dir io) = True"
| "is_spawn _ = False"

definition issued :: "'fs world \<Rightarrow> 'fs world outcome \<Rightarrow> call list" where
  "issued w r = drop (length (calls w)) (calls (world_of r))"

definition extends :: "'fs world \<Rightarrow> 'fs world \<Rightarrow> bool" where
  "extends w w' = prefix (calls w) (calls w')"

text \<open>The copier only issues \<open>mkdirSync\<close> and \<open>copyFileSync\<close> calls, and logs nothing.\<close>

definition copier_step :: "'fs world \<Rightarrow> 'fs world \<Rightarrow> bool" where
  "copier_step w w' =
     (prefix (calls w) (calls w')
      \<and> filter is_spawn (calls w') = filter is_spawn (calls w)
      \<and> log_calls w' = log_calls w \<and> console w' = console w)"

definition store_entry:: "'fs port \<Rightarrow> string \<Rightarrow> path" where
  "store_entry P pkgName = path_join (path_join (cwd P) ''node_modules'') pkgName"

definition source_tree :: "'fs port \<Rightarrow> string \<Rightarrow> path" where
  "source_tree P version = path_resolve (cwd P) (strip_file_prefix version)"

definition entry :: "'fs port \<Rightarrow> bool \<Rightarrow> bool \<Rightarrow> bool \<Rightarrow> string \<times> json \<Rightarrow> 'fs world \<Rightarrow> 'fs world outcome" where
  "entry P silent noInstall dev =
     unlink_entry P silent noInstall dev (cwd P) (path_join (cwd P) ''node_modules'')"

section \<open>A project to run on\<close>

definition fixture_fs:: filesystem where
  "fixture_fs =
     [([''fake''], Dir),
      ([''fake'', ''project''], Dir),
      ([''fake'', ''project'', ''package.json''], File ''manifest''),
      ([''fake'', ''project'', ''node_modules''], Dir),
      ([''fake'', ''project'', ''node_modules'', ''local-pkg''], Link [''fake'', ''local-package'']),
      ([''fake'', ''project'', ''node_modules'', ''real-pkg''], Dir),
      ([''fake'', ''local-package''], Dir),
      ([''fake'', ''local-package'', ''index.js''], File ''index''),
      ([''fake'', ''local-package'', ''lib''], Dir),
      ([''fake'', ''local-package'', ''lib'', ''helper.js''], File ''helper''),
      ([''fake'', ''local-package'', ''package.json''], File ''{}'')]"

definition fixture_manifest :: json where
  "fixture_manifest =
     JObj [(''dependencies'',
              JObj [(''local-pkg'', JStr ''file:../local-package''),
                    (''real-pkg'', JStr ''file:../real-package''),
                    (''absent-pkg'', JStr ''file:../absent-package''),
                    (''regular'', JStr ''^1.0.0''),
                    (''gitdep'', JStr ''git+https://github.com/x/y.git'')])]"

definition fixture_parse :: "string \<Rightarrow> js_error + json" where
  "fixture_parse text =
     (if text = ''manifest'' then Inr fixture_manifest
      else if text = ''{}'' then Inr (JObj [])
      else Inl (SyntaxError ''Unexpected token''))"

definition fixture_npm ::
  "int option \<Rightarrow> string \<Rightarrow> string list \<Rightarrow> path \<Rightarrow> stdio \<Rightarrow> filesystem \<Rightarrow> int option \<times> filesystem" where
  "fixture_npm status cmd args dir io f = (status, f)"

definition fixture_port :: "int option \<Rightarrow> filesystem port" where
  "fixture_port status = posix [''fake'', ''project''] 100 fixture_parse (fixture_npm status)"

definition fixture_world :: "filesystem world" where
  "fixture_world = \<lparr> fs = fixture_fs, calls = [], log_calls = [], console = [] \<rparr>"

definition empty_world :: "filesystem world" where
  "empty_world = \<lparr> fs = [], calls = [], log_calls = [], console = [] \<rparr>"

definition registry_manifest :: json where
  "registry_manifest =
     JObj [(''dependencies'',
              JObj [(''regular'', JStr ''^1.0.0''),
                    (''gitdep'', JStr ''git+https://github.com/x/y.git'')])]"

definition registry_parse :: "string \<Rightarrow> js_error + json" where
  "registry_parse content = Inr registry_manifest"

definition registry_port :: "filesystem port" where
  "registry_port = posix [''fake'', ''project''] 100 registry_parse (fixture_npm (Some 0))"

definition group :: "json \<Rightarrow> string \<Rightarrow> (string \<times> json) list" where
  "group pkg key =
     (case get_property pkg key of Inl e \<Rightarrow> [] | Inr v \<Rightarrow> own_properties (or_empty v))"

definition colliding_manifest :: json where
  "colliding_manifest =
     JObj [(''dependencies'',
              JObj [(''local-pkg'', JStr ''file:../runtime-package''),
                    (''other'', JStr ''file:../other'')]),
           (''devDependencies'', JObj [(''local-pkg'', JStr ''file:../local-package'')])]"

section \<open>Trees of the filesystem\<close>

definition simple_name :: "string \<Rightarrow> bool" where
  "simple_name c = (c \<noteq> [] \<and> c \<noteq> ''.'' \<and> c \<noteq> ''..'' \<and> CHR ''/'' \<notin> set c)"

text \<open>All the directories on the way to a path exist and are no symbolic links.\<close>

definition dirs_above :: "filesystem \<Rightarrow> path \<Rightarrow> bool" where
  "dirs_above f p = (\<forall>q. strict_prefix q p \<longrightarrow> lookup f q = Some Dir)"

definition no_link :: "node option \<Rightarrow> bool" where
  "no_link v = (case v of Some (Link t) \<Rightarrow> False | _ \<Rightarrow> True)"

text \<open>
  A directory with nothing but directories and regular files below it, on fewer than \<open>n\<close>
  levels, every name a file name.
\<close>

definition tree_at :: "filesystem \<Rightarrow> path \<Rightarrow> nat \<Rightarrow> bool" where
  "tree_at f src n =
     (dirs_above f src \<and> lookup f src = Some Dir
      \<and> (\<forall>q. lookup f (src @ q) \<noteq> None \<longrightarrow>
             no_link (lookup f (src @ q)) \<and> (\<forall>c \<in> set q. simple_name c) \<and> length q < n
             \<and> (q \<noteq> [] \<longrightarrow> lookup f (src @ butlast q) = Some Dir)))"

text \<open>A name that is free: its directory exists, and nothing is at the name or below it.\<close>

definition free_at :: "filesystem \<Rightarrow> path \<Rightarrow> bool" where
  "free_at f dest = (dest \<noteq> [] \<and> dirs_above f dest \<and> (\<forall>q. lookup f (dest @ q) = None))"

fun ordered :: "path list \<Rightarrow> call list \<Rightarrow> bool" where
  "ordered made [] = True"
| "ordered made (MkdirSync p # cs) = ordered (p # made) cs"
| "ordered made (CopyFileSync a b # cs) = (b \<noteq> [] \<and> butlast b \<in> set made \<and> ordered made cs)"
| "ordered made (c # cs) = ordered made cs"

definition copy_entry ::
  "nat \<Rightarrow> 'fs port \<Rightarrow> path \<Rightarrow> path \<Rightarrow> string \<Rightarrow> 'fs world \<Rightarrow> 'fs world outcome" where
  "copy_entry depth P src dest x w =
     (let srcPath = path_join src x;
          destPath = path_join dest x
      in case statSync P srcPath (fs w) of
           Inl e \<Rightarrow> Throws e w
         | Inr stat \<Rightarrow>
             if stat = Directory
             then copyRecursiveSync depth P srcPath destPath w
             else do_copyFile P srcPath destPath w)"

definition copied :: "filesystem \<Rightarrow> path \<Rightarrow> path \<Rightarrow> filesystem \<Rightarrow> bool" where
  "copied f src dest f' =
     (\<forall>q. lookup f' q =
            (if prefix dest q then lookup f (src @ drop (length dest) q) else lookup f q))"

definition clash_world :: "filesystem world" where
  "clash_world =
     \<lparr> fs = [([''source''], Dir), ([''source'', ''lib''], Dir),
             ([''target''], Dir), ([''target'', ''lib''], File ''not a directory'')],
       calls = [], log_calls = [], console = [] \<rparr>"

section \<open>Projects that a run settles\<close>

text \<open>Every name in the filesystem is a file name: not empty, not a dot name, no slash.\<close>

definition names_ok :: "filesystem \<Rightarrow> bool" where
  "names_ok f = (\<forall>q. lookup f q \<noteq> None \<longrightarrow> (\<forall>c \<in> set q. simple_name c))"

text \<open>No symbolic link at \<open>D\<close> or below it.\<close>

definition link_free :: "filesystem \<Rightarrow> path \<Rightarrow> bool" where
  "link_free f D = (\<forall>q t. prefix D q \<longrightarrow> lookup f q \<noteq> Some (Link t))"

text \<open>Two filesystems that differ at \<open>D\<close> and below it only.\<close>

definition same_outside :: "path \<Rightarrow> filesystem \<Rightarrow> filesystem \<Rightarrow> bool" where
  "same_outside D f f' = (\<forall>q. \<not> prefix D q \<longrightarrow> lookup f' q = lookup f q)"

text \<open>
  A place to write to: a name all of whose directories exist, with no symbolic link at
  the name or below it.
\<close>

definition good :: "path \<Rightarrow> filesystem \<Rightarrow> bool" where
  "good D f = (D \<noteq> [] \<and> dirs_above f D \<and> names_ok f \<and> link_free f D)"

text \<open>
  An install command that writes below its working directory only, and only file names.
\<close>

definition npm_contained ::
  "(string \<Rightarrow> string list \<Rightarrow> path \<Rightarrow> stdio \<Rightarrow> filesystem \<Rightarrow> int option \<times> filesystem) \<Rightarrow> bool" where
  "npm_contained sp =
     (\<forall>cmd args dir io f.
        (names_ok f \<longrightarrow> names_ok (snd (sp cmd args dir io f)))
        \<and> (\<forall>q. \<not> strict_prefix dir q \<longrightarrow> lookup (snd (sp cmd args dir io f)) q = lookup f q))"

text \<open>
  The target of a symbolic link of the store: a directory that exists, reached through
  directories only, and outside the store.
\<close>

definition stable :: "filesystem \<Rightarrow> path \<Rightarrow> path \<Rightarrow> bool" where
  "stable f nm t = (dirs_above f t \<and> lookup f t = Some Dir \<and> \<not> prefix nm t)"

text \<open>
  A store entry lies below the store, the directories above it exist, and when it is a
  symbolic link its target is stable.
\<close>

definition store_ok :: "filesystem \<Rightarrow> path \<Rightarrow> path \<Rightarrow> bool" where
  "store_ok f nm d =
     (strict_prefix nm d \<and> dirs_above f d
      \<and> (\<forall>t. lookup f d = Some (Link t) \<longrightarrow> stable f nm t))"

text \<open>
  A project: its manifest is a regular file in the project root, and every store entry
  of \<open>dests\<close> is in order.
\<close>

definition project_ok :: "path \<Rightarrow> string \<Rightarrow> path set \<Rightarrow> filesystem \<Rightarrow> bool" where
  "project_ok home content dests f =
     (names_ok f
      \<and> dirs_above f (home @ [''package.json''])
      \<and> lookup f (home @ [''package.json'']) = Some (File content)
      \<and> (\<forall>d \<in> dests. store_ok f (home @ [''node_modules'']) d))"

text \<open>The store entries of the file-path references among the merged dependencies.\<close>

definition store_entries :: "filesystem port \<Rightarrow> (string \<times> json) list \<Rightarrow> path set" where
  "store_entries P deps = set (map (\<lambda>e. store_entry P (fst e)) (filter is_file_reference deps))"

text \<open>
  A project where the store entry of \<open>a\<close> is a symbolic link into the store entry of
  \<open>b\<close>, itself a symbolic link to a directory without \<open>sub\<close>: the link of \<open>a\<close> dangles
  until \<open>b\<close> is replaced by its copy.
\<close>

definition stale_fs :: filesystem where
  "stale_fs =
     [([''app''], Dir),
      ([''app'', ''package.json''], File ''manifest''),
      ([''app'', ''node_modules''], Dir),
      ([''app'', ''node_modules'', ''a''], Link [''app'', ''node_modules'', ''b'', ''sub'']),
      ([''app'', ''node_modules'', ''b''], Link [''old'']),
      ([''old''], Dir),
      ([''a''], Dir),
      ([''b''], Dir),
      ([''b'', ''sub''], Dir)]"

definition stale_parse :: "string \<Rightarrow> js_error + json" where
  "stale_parse content =
     Inr (JObj [(''dependencies'', JObj [(''a'', JStr ''file:../a''), (''b'', JStr ''file:../b'')])])"

definition stale_port :: "filesystem port" where
  "stale_port = posix [''app''] 100 stale_parse (fixture_npm (Some 0))"

definition stale_world :: "filesystem world" where
  "stale_world = \<lparr> fs = stale_fs, calls = [], log_calls = [], console = [] \<rparr>"

text \<open>The second of two runs in succession.\<close>

definition again :: "'fs port \<Rightarrow> options \<Rightarrow> 'fs world \<Rightarrow> 'fs world outcome" where
  "again P opts w = unlinkLocalDependencies P opts (world_of (unlinkLocalDependencies P opts w))"

section \<open>Properties\<close>

lemma then_do_Returns [simp]: "then_do (Returns w) f = f w"
  by (simp add: then_do_def)

lemma then_do_Throws [simp]: "then_do (Throws e w) f = Throws e w"
  by (simp add: then_do_def)

lemma forEach_append: "forEach f (xs @ ys) w = then_do (forEach f xs w) (forEach f ys)"
  by (induction xs arbitrary: w) (auto split: outcome.splits)

lemma forEach_rel:
  assumes refl: "\<And>w. R w w"
    and trans: "\<And>a b c. R a b \<Longrightarrow> R b c \<Longrightarrow> R a c"
    and step: "\<And>x w. x \<in> set xs \<Longrightarrow> R w (world_of (f x w))"
  shows "R w (world_of (forEach f xs w))"
  using step
proof (induction xs arbitrary: w)
  case Nil
  show ?case by (simp add: refl)
next
  case (Cons x xs)
  have s: "R w (world_of (f x w))" using Cons.prems by simp
  show ?case
  proof (cases "f x w")
    case (Returns w')
    have "R w' (world_of (forEach f xs w'))" using Cons.IH Cons.prems by simp
    with s Returns show ?thesis by (auto intro: trans)
  next
    case (Throws e w')
    with s show ?thesis by simp
  qed
qed

lemma then_do_rel:
  assumes trans: "\<And>a b c. R a b \<Longrightarrow> R b c \<Longrightarrow> R a c"
    and first: "R w (world_of r)"
    and second: "\<And>w'. r = Returns w' \<Longrightarrow> R w' (world_of (g w'))"
  shows "R w (world_of (then_do r g))"
  using first second by (cases r) (auto intro: trans)

text \<open>The log only writes to the log and the console.\<close>

lemma log_fs [simp]: "fs (log_msg m l s w) = fs w"
  by (simp add: log_msg_def Let_def)

lemma log_calls' [simp]: "calls (log_msg m l s w) = calls w"
  by (simp add: log_msg_def Let_def)

lemma log_log_calls [simp]: "log_calls (log_msg m l s w) = log_calls w @ [(m, l, s)]"
  by (simp add: log_msg_def Let_def)

lemma log_console [simp]:
  "console (log_msg m l s w) = (if s then console w else console w @ [(l, m)])"
  by (simp add: log_msg_def Let_def)

lemma installDependencies_returns: "\<exists>w'. installDependencies P dest dev silent w = Returns w'"
  by (simp add: installDependencies_def Let_def split: prod.splits)

lemma extends_refl: "extends w w"
  by (simp add: extends_def)

lemma extends_trans: "extends a b \<Longrightarrow> extends b c \<Longrightarrow> extends a c"
  by (auto simp: extends_def)

lemma extends_log [simp]: "extends w (log_msg m l s w)"
  by (simp add: extends_def)

lemma do_mkdir_world:
  "calls (world_of (do_mkdir P p w)) = calls w @ [MkdirSync p]
   \<and> log_calls (world_of (do_mkdir P p w)) = log_calls w
   \<and> console (world_of (do_mkdir P p w)) = console w"
  by (simp add: do_mkdir_def Let_def split: sum.splits)

lemma do_copyFile_world:
  "calls (world_of (do_copyFile P a b w)) = calls w @ [CopyFileSync a b]
   \<and> log_calls (world_of (do_copyFile P a b w)) = log_calls w
   \<and> console (world_of (do_copyFile P a b w)) = console w"
  by (simp add: do_copyFile_def Let_def split: sum.splits)

lemma do_rm_world:
  "calls (world_of (do_rm P p w)) = calls w @ [RmSync p]
   \<and> log_calls (world_of (do_rm P p w)) = log_calls w
   \<and> console (world_of (do_rm P p w)) = console w"
  by (simp add: do_rm_def Let_def split: sum.splits)

lemma do_rm_Returns:
  "rmSync P p (fs w) = Inr f \<Longrightarrow> do_rm P p w = Returns (w\<lparr>calls := calls w @ [RmSync p], fs := f\<rparr>)"
  by (simp add: do_rm_def Let_def)

lemma do_rm_Throws:
  "rmSync P p (fs w) = Inl e \<Longrightarrow> do_rm P p w = Throws e (w\<lparr>calls := calls w @ [RmSync p]\<rparr>)"
  by (simp add: do_rm_def Let_def)

lemma do_spawn_world:
  "calls (snd (do_spawn P cmd args dir io w)) = calls w @ [SpawnSync cmd args dir io]
   \<and> log_calls (snd (do_spawn P cmd args dir io w)) = log_calls w
   \<and> console (snd (do_spawn P cmd args dir io w)) = console w
   \<and> fst (do_spawn P cmd args dir io w) = fst (spawnSync P cmd args dir io (fs w))"
  by (simp add: do_spawn_def Let_def split: prod.splits)

lemma copier_step_refl: "copier_step w w"
  by (simp add: copier_step_def)

lemma copier_step_trans: "copier_step a b \<Longrightarrow> copier_step b c \<Longrightarrow> copier_step a c"
  by (auto simp: copier_step_def)

lemma copyRecursiveSync_step: "copier_step w (world_of (copyRecursiveSync depth P src dest w))"
proof (induction depth arbitrary: src dest w)
  case 0
  show ?case by (simp add: copier_step_refl)
next
  case (Suc depth)
  let ?first = "if \<not> existsSync P dest (fs w) then do_mkdir P dest w else Returns w"
  have first: "copier_step w (world_of ?first)"
    using do_mkdir_world [of P dest w] by (simp add: copier_step_def)
  have rest: "copier_step w1
       (world_of (case readdirSync P src (fs w1) of
                    Inl e \<Rightarrow> Throws e w1
                  | Inr files \<Rightarrow>
                      forEach
                        (\<lambda>file w2.
                           let srcPath = path_join src file;
                               destPath = path_join dest file
                           in case statSync P srcPath (fs w2) of
                                Inl e \<Rightarrow> Throws e w2
                              | Inr stat \<Rightarrow>
                                  if stat = Directory
                                  then copyRecursiveSync depth P srcPath destPath w2
                                  else do_copyFile P srcPath destPath w2)
                        files w1))" for w1
  proof (cases "readdirSync P src (fs w1)")
    case (Inl e)
    then show ?thesis by (simp add: copier_step_refl)
  next
    case (Inr files)
    have "copier_step w1 (world_of (forEach
                        (\<lambda>file w2.
                           let srcPath = path_join src file;
                               destPath = path_join dest file
                           in case statSync P srcPath (fs w2) of
                                Inl e \<Rightarrow> Throws e w2
                              | Inr stat \<Rightarrow>
                                  if stat = Directory
                                  then copyRecursiveSync depth P srcPath destPath w2
                                  else do_copyFile P srcPath destPath w2)
                        files w1))"
    proof (rule forEach_rel [where R = copier_step])
      show "copier_step a a" for a :: "'a world" by (rule copier_step_refl)
      show "copier_step a b \<Longrightarrow> copier_step b c \<Longrightarrow> copier_step a c" for a b c :: "'a world"
        by (rule copier_step_trans)
    next
      fix x and w2 :: "'a world"
      show "copier_step w2 (world_of (let srcPath = path_join src x;
                               destPath = path_join dest x
                           in case statSync P srcPath (fs w2) of
                                Inl e \<Rightarrow> Throws e w2
                              | Inr stat \<Rightarrow>
                                  if stat = Directory
                                  then copyRecursiveSync depth P srcPath destPath w2
                                  else do_copyFile P srcPath destPath w2))"
        using Suc.IH
          do_copyFile_world [of P "path_join src x" "path_join dest x" w2]
        by (auto simp: Let_def copier_step_def split: sum.splits)
    qed
    with Inr show ?thesis by simp
  qed
  show ?case
    unfolding copyRecursiveSync.simps
    by (rule then_do_rel [where R = copier_step, OF copier_step_trans first rest]) 
qed

lemma entry_absent:
  "\<not> existsSync P (store_entry P name) (fs w) \<Longrightarrow>
   entry P silent noInstall dev (name, JStr version) w =
     Returns (log_msg (''[WARN] '' @ name @ '' not found in node_modules'') WARN silent w)"
  unfolding entry_def unlink_entry_def store_entry_def Let_def by simp

lemma entry_not_symlink:
  "existsSync P (store_entry P name) (fs w) \<Longrightarrow>
   lstatSync P (store_entry P name) (fs w) = Inr k \<Longrightarrow> k \<noteq> SymbolicLink \<Longrightarrow>
   entry P silent noInstall dev (name, JStr version) w =
     Returns (log_msg (''[SKIP] '' @ name @ '' is not a symlink'') LOG silent w)"
  unfolding entry_def unlink_entry_def store_entry_def Let_def by simp

lemma entry_lstat_throws:
  "existsSync P (store_entry P name) (fs w) \<Longrightarrow>
   lstatSync P (store_entry P name) (fs w) = Inl e \<Longrightarrow>
   entry P silent noInstall dev (name, JStr version) w = Throws e w"
  unfolding entry_def unlink_entry_def store_entry_def Let_def by simp

lemma entry_symlink:
  "existsSync P (store_entry P name) (fs w) \<Longrightarrow>
   lstatSync P (store_entry P name) (fs w) = Inr SymbolicLink \<Longrightarrow>
   entry P silent noInstall dev (name, JStr version) w =
     then_do (do_rm P (store_entry P name)
                (log_msg (''[REPLACE] '' @ name @ '': replacing symlink with copy from '' @
                        strip_file_prefix version) LOG silent w))
       (\<lambda>w2. then_do (copyRecursiveSync (stack_limit P) P (source_tree P version)
                        (store_entry P name) w2)
          (\<lambda>w3. if \<not> noInstall then installDependencies P (store_entry P name) dev silent w3
                else Returns w3))"
  unfolding entry_def unlink_entry_def store_entry_def source_tree_def Let_def by (simp cong: if_cong)

lemma unlink_all_Cons:
  "unlink_all P silent noInstall dev (e # es) w =
     (if is_file_reference e
      then then_do (entry P silent noInstall dev e w) (unlink_all P silent noInstall dev es)
      else unlink_all P silent noInstall dev es w)"
  by (auto simp: unlink_all_def entry_def Let_def then_do_def split: outcome.splits)

lemma unlink_all_Nil [simp]: "unlink_all P silent noInstall dev [] w = Returns w"
  by (simp add: unlink_all_def)

lemma issued_append: "calls (world_of r) = calls w @ cs \<Longrightarrow> issued w r = cs"
  by (simp add: issued_def)

lemma do_spawn_eq:
  "do_spawn P cmd args dir io w =
     (fst (spawnSync P cmd args dir io (fs w)),
      w\<lparr>calls := calls w @ [SpawnSync cmd args dir io],
        fs := snd (spawnSync P cmd args dir io (fs w))\<rparr>)"
  by (simp add: do_spawn_def Let_def case_prod_beta)

lemma installDependencies_no_manifest:
  "\<not> existsSync P (path_join dest ''package.json'') (fs w) \<Longrightarrow>
   installDependencies P dest dev silent w =
     Returns (log_msg (''[SKIP] No package.json in '' @ show_path dest) LOG silent w)"
  unfolding installDependencies_def Let_def by simp

lemma installDependencies_store_present:
  "existsSync P (path_join dest ''package.json'') (fs w) \<Longrightarrow>
   existsSync P (path_join dest ''node_modules'') (fs w) \<Longrightarrow>
   installDependencies P dest dev silent w =
     Returns (log_msg (''[SKIP] Dependencies already present for '' @ path_basename dest)
                LOG silent w)"
  unfolding installDependencies_def Let_def by simp

lemma installDependencies_runs:
  assumes "existsSync P (path_join dest ''package.json'') (fs w)"
    and "\<not> existsSync P (path_join dest ''node_modules'') (fs w)"
  shows "\<exists>w'. installDependencies P dest dev silent w = Returns w'
           \<and> calls w' = calls w @
                 [SpawnSync ''npm''
                    ([''install'', ''--no-audit'', ''--no-fund''] @
                       (if \<not> dev then [''--production''] else []))
                    dest (if silent then Ignore else Inherit)]"
  using assms unfolding installDependencies_def Let_def do_spawn_eq
  by (simp cong: if_cong)

lemma installDependencies_calls:
  "prefix (calls w) (calls (world_of (installDependencies P dest dev silent w)))"
proof (cases "existsSync P (path_join dest ''package.json'') (fs w)")
  case False
  then show ?thesis by (simp add: installDependencies_no_manifest)
next
  case manifest: True
  show ?thesis
  proof (cases "existsSync P (path_join dest ''node_modules'') (fs w)")
    case True
    with manifest show ?thesis by (simp add: installDependencies_store_present)
  next
    case False
    from installDependencies_runs [OF manifest False, of dev silent]
    show ?thesis by auto
  qed
qed

lemma prefix_issued: "prefix (calls w) (calls (world_of r)) \<Longrightarrow> calls (world_of r) = calls w @ issued w r"
  by (auto simp: issued_def prefix_def)

text \<open>In the replacing branch the first call issued is the removal of the store entry.\<close>

lemma entry_symlink_calls:
  assumes "existsSync P (store_entry P name) (fs w)"
    and "lstatSync P (store_entry P name) (fs w) = Inr SymbolicLink"
  shows "\<exists>cs. calls (world_of (entry P silent noInstall dev (name, JStr version) w)) =
            calls w @ RmSync (store_entry P name) # cs"
proof -
  let ?w1 = "log_msg (''[REPLACE] '' @ name @ '': replacing symlink with copy from '' @
                        strip_file_prefix version) LOG silent w"
  let ?rm = "do_rm P (store_entry P name) ?w1"
  let ?R = "\<lambda>a b. prefix (calls a) (calls b)"
  have rm: "calls (world_of ?rm) = calls w @ [RmSync (store_entry P name)]"
    using do_rm_world [of P "store_entry P name" ?w1] by simp
  have "?R (world_of ?rm) (world_of (then_do ?rm
       (\<lambda>w2. then_do (copyRecursiveSync (stack_limit P) P (source_tree P version)
                        (store_entry P name) w2)
          (\<lambda>w3. if \<not> noInstall then installDependencies P (store_entry P name) dev silent w3
                else Returns w3))))"
  proof (cases ?rm)
    case (Throws e w2)
    then show ?thesis by simp
  next
    case (Returns w2)
    have "?R w2 (world_of (then_do (copyRecursiveSync (stack_limit P) P (source_tree P version)
                        (store_entry P name) w2)
          (\<lambda>w3. if \<not> noInstall then installDependencies P (store_entry P name) dev silent w3
                else Returns w3)))"
    proof (rule then_do_rel [where R = ?R])
      show "?R w2 (world_of (copyRecursiveSync (stack_limit P) P (source_tree P version)
                        (store_entry P name) w2))"
        using copyRecursiveSync_step [of w2] by (simp add: copier_step_def)
    next
      fix w3
      show "?R w3 (world_of (if \<not> noInstall
                then installDependencies P (store_entry P name) dev silent w3
                else Returns w3))"
        by (simp add: installDependencies_calls)
    qed auto
    with Returns show ?thesis by simp
  qed
  then obtain cs where "calls (world_of (entry P silent noInstall dev (name, JStr version) w)) =
      (calls w @ [RmSync (store_entry P name)]) @ cs"
    using assms rm by (auto simp: entry_symlink prefix_def)
  then show ?thesis by simp
qed



lemma do_rm_step: "copier_step w (world_of (do_rm P p w))"
  using do_rm_world [of P p w] by (simp add: copier_step_def)

lemma entry_without_install_spawns:
  "filter is_spawn (calls (world_of (entry P silent True dev e w))) = filter is_spawn (calls w)"
proof -
  let ?R = "\<lambda>a b :: 'a world. filter is_spawn (calls b) = filter is_spawn (calls a)"
  have "?R w (world_of (unlink_entry P silent True dev (cwd P) (path_join (cwd P) ''node_modules'') e w))"
  proof (cases "snd e")
    case (JStr version)
    let ?dest = "path_join (path_join (cwd P) ''node_modules'') (fst e)"
    let ?w1 = "log_msg (''[REPLACE] '' @ fst e @ '': replacing symlink with copy from '' @
                          strip_file_prefix version) LOG silent w"
    have "?R ?w1 (world_of (then_do (do_rm P ?dest ?w1)
            (\<lambda>w2. then_do (copyRecursiveSync (stack_limit P) P
                              (path_resolve (cwd P) (strip_file_prefix version)) ?dest w2)
                     (\<lambda>w3. Returns w3))))"
    proof (rule then_do_rel [where R = ?R])
      show "?R ?w1 (world_of (do_rm P ?dest ?w1))"
        using do_rm_step [of ?w1 P ?dest] by (simp add: copier_step_def)
    next
      fix w2 :: "'a world"
      show "?R w2 (world_of (then_do (copyRecursiveSync (stack_limit P) P
                              (path_resolve (cwd P) (strip_file_prefix version)) ?dest w2)
                     (\<lambda>w3. Returns w3)))"
      proof (rule then_do_rel [where R = ?R])
        show "?R w2 (world_of (copyRecursiveSync (stack_limit P) P
                              (path_resolve (cwd P) (strip_file_prefix version)) ?dest w2))"
          using copyRecursiveSync_step [of w2] by (simp add: copier_step_def)
      qed auto
    qed auto
    then show ?thesis
      using JStr unfolding unlink_entry_def Let_def
      by (simp split: sum.splits cong: if_cong)
  qed (simp_all add: unlink_entry_def)
  then show ?thesis by (simp add: entry_def)
qed

lemma unlink_all_without_install_spawns:
  "filter is_spawn (calls (world_of (unlink_all P silent True dev allDeps w))) =
   filter is_spawn (calls w)"
proof -
  let ?R = "\<lambda>a b :: 'a world. filter is_spawn (calls b) = filter is_spawn (calls a)"
  have "?R w (world_of (forEach (entry P silent True dev) (filter is_file_reference allDeps) w))"
    by (rule forEach_rel [where R = ?R]) (auto simp: entry_without_install_spawns)
  then show ?thesis by (simp add: unlink_all_def entry_def Let_def)
qed

lemma unlinkLocalDependencies_unfold:
  "unlinkLocalDependencies P opts w =
     (case readFileSync P (path_join (cwd P) ''package.json'') (fs w) of
        Inl e \<Rightarrow> Throws e w
      | Inr text \<Rightarrow>
     (case JSON_parse P text of
        Inl e \<Rightarrow> Throws e w
      | Inr pkg \<Rightarrow>
     (case all_dependencies pkg of
        Inl e \<Rightarrow> Throws e w
      | Inr allDeps \<Rightarrow>
          unlink_all P (option_or_false opts ''silent'') (option_or_false opts ''noInstall'')
            (option_or_false opts ''dev'') allDeps w)))"
  by (simp add: unlinkLocalDependencies_def Let_def)

text \<open>
  Claim C5 (install command wiring). When the installer reaches its command (the copy has
  a manifest and no dependency store), the one call it issues is \<open>npm\<close> with working
  directory the destination and arguments \<open>install --no-audit --no-fund\<close>, followed by
  \<open>--production\<close> exactly when \<open>dev\<close> is false. In the loop the installer is called on
  the store entry of the dependency just replaced, with \<open>dev\<close> and \<open>silent\<close> forwarded.
  With \<open>noInstall\<close> set, a run issues no command at all, whatever the dependencies.
\<close>

theorem install_command_wiring:
  fixes P :: "'fs port" and w :: "'fs world"
  shows
  "(existsSync P (path_join dest ''package.json'') (fs w)
      \<and> \<not> existsSync P (path_join dest ''node_modules'') (fs w) \<longrightarrow>
      issued w (installDependencies P dest dev silent w) =
        [SpawnSync ''npm''
           ([''install'', ''--no-audit'', ''--no-fund''] @ (if dev then [] else [''--production'']))
           dest (if silent then Ignore else Inherit)])
   \<and> (\<forall>f w3.
         existsSync P (store_entry P name) (fs w)
         \<and> lstatSync P (store_entry P name) (fs w) = Inr SymbolicLink
         \<and> rmSync P (store_entry P name) (fs w) = Inr f
         \<and> copyRecursiveSync (stack_limit P) P (source_tree P version) (store_entry P name)
              ((log_msg (''[REPLACE] '' @ name @ '': replacing symlink with copy from '' @
                           strip_file_prefix version) LOG silent w)
                 \<lparr>calls := calls w @ [RmSync (store_entry P name)], fs := f\<rparr>) = Returns w3 \<longrightarrow>
         entry P silent False dev (name, JStr version) w =
           installDependencies P (store_entry P name) dev silent w3)
   \<and> filter is_spawn (calls (world_of (unlink_all P silent True dev allDeps w))) =
       filter is_spawn (calls w)
   \<and> (option_or_false opts ''noInstall'' \<longrightarrow>
         filter is_spawn (calls (world_of (unlinkLocalDependencies P opts w))) =
         filter is_spawn (calls w))"
proof -
  have command: "issued w (installDependencies P dest dev silent w) =
        [SpawnSync ''npm''
           ([''install'', ''--no-audit'', ''--no-fund''] @ (if dev then [] else [''--production'']))
           dest (if silent then Ignore else Inherit)]"
    if "existsSync P (path_join dest ''package.json'') (fs w)"
      and "\<not> existsSync P (path_join dest ''node_modules'') (fs w)"
  proof -
    from installDependencies_runs [OF that, of dev silent]
    obtain w' where "installDependencies P dest dev silent w = Returns w'"
      and "calls w' = calls w @
                 [SpawnSync ''npm''
                    ([''install'', ''--no-audit'', ''--no-fund''] @
                       (if \<not> dev then [''--production''] else []))
                    dest (if silent then Ignore else Inherit)]"
      by blast
    then show ?thesis by (simp add: issued_def)
  qed
  have reached: "entry P silent False dev (name, JStr version) w =
           installDependencies P (store_entry P name) dev silent w3"
    if "existsSync P (store_entry P name) (fs w)"
      and "lstatSync P (store_entry P name) (fs w) = Inr SymbolicLink"
      and "rmSync P (store_entry P name) (fs w) = Inr f"
      and "copyRecursiveSync (stack_limit P) P (source_tree P version) (store_entry P name)
              ((log_msg (''[REPLACE] '' @ name @ '': replacing symlink with copy from '' @
                           strip_file_prefix version) LOG silent w)
                 \<lparr>calls := calls w @ [RmSync (store_entry P name)], fs := f\<rparr>) = Returns w3"
    for f w3
    using that by (simp add: entry_symlink do_rm_Returns)
  have skipped: "filter is_spawn (calls (world_of (unlinkLocalDependencies P opts w))) =
         filter is_spawn (calls w)" if "option_or_false opts ''noInstall''"
    using that unlink_all_without_install_spawns [of P _ _ _ w]
    by (simp add: unlinkLocalDependencies_unfold split: sum.splits)
  show ?thesis
    using command reached skipped unlink_all_without_install_spawns [of P silent dev allDeps w]
    by blast
qed

theorem install_command_wiring_witness:
  "issued fixture_world
     (installDependencies (fixture_port (Some 0)) [''fake'', ''local-package''] False False
        fixture_world) =
     [SpawnSync ''npm'' [''install'', ''--no-audit'', ''--no-fund'', ''--production'']
        [''fake'', ''local-package''] Inherit]
   \<and> issued fixture_world
       (installDependencies (fixture_port (Some 0)) [''fake'', ''local-package''] True True
          fixture_world) =
       [SpawnSync ''npm'' [''install'', ''--no-audit'', ''--no-fund'']
          [''fake'', ''local-package''] Ignore]
   \<and> filter is_spawn
         (calls (world_of (unlinkLocalDependencies (fixture_port (Some 0)) [(''noInstall'', True)]
                             fixture_world))) = []"
proof -
  let ?P = "fixture_port (Some 0)"
  have h: "existsSync ?P (path_join [''fake'', ''local-package''] ''package.json'') (fs fixture_world)
           \<and> \<not> existsSync ?P (path_join [''fake'', ''local-package''] ''node_modules'') (fs fixture_world)"
    by code_simp
  have o: "option_or_false [(''noInstall'', True)] ''noInstall''"
    by code_simp
  have c: "filter is_spawn (calls fixture_world) = []"
    by code_simp
  note t = install_command_wiring [where P = "?P" and w = fixture_world
      and dest = "[''fake'', ''local-package'']" and opts = "[(''noInstall'', True)]"]
  show ?thesis
    using t [where dev = False and silent = False, THEN conjunct1]
      t [where dev = True and silent = True, THEN conjunct1]
      t [THEN conjunct2, THEN conjunct2, THEN conjunct2] h o c
    by simp
qed

lemma installDependencies_failure:
  assumes "existsSync P (path_join dest ''package.json'') (fs w)"
    and "\<not> existsSync P (path_join dest ''node_modules'') (fs w)"
    and "fst (spawnSync P ''npm''
               ([''install'', ''--no-audit'', ''--no-fund''] @ (if dev then [] else [''--production'']))
               dest (if silent then Ignore else Inherit) (fs w)) \<noteq> Some 0"
  shows "\<exists>w2. installDependencies P dest dev silent w =
           Returns (log_msg (''[ERROR] Failed to install dependencies for '' @ path_basename dest)
                      ERROR silent w2)"
  using assms unfolding installDependencies_def Let_def do_spawn_eq
  by (cases dev; cases silent; simp cong: if_cong; blast)

text \<open>
  Claim C6 (installer self-containment). The installer always returns: without a manifest
  in the destination it logs and returns, with a dependency store already there it logs
  and returns, and when the command's status is not 0 it logs an error and returns. So a
  dependency whose removal and copy went through never stops the loop: the run goes on
  with the dependencies after it.
\<close>

theorem installer_self_contained:
  fixes P :: "'fs port" and w :: "'fs world"
  shows
  "(\<exists>w'. installDependencies P dest dev silent w = Returns w')
   \<and> (\<not> existsSync P (path_join dest ''package.json'') (fs w) \<longrightarrow>
         installDependencies P dest dev silent w =
           Returns (log_msg (''[SKIP] No package.json in '' @ show_path dest) LOG silent w))
   \<and> (existsSync P (path_join dest ''package.json'') (fs w)
        \<and> existsSync P (path_join dest ''node_modules'') (fs w) \<longrightarrow>
         installDependencies P dest dev silent w =
           Returns (log_msg (''[SKIP] Dependencies already present for '' @ path_basename dest)
                      LOG silent w))
   \<and> (existsSync P (path_join dest ''package.json'') (fs w)
        \<and> \<not> existsSync P (path_join dest ''node_modules'') (fs w)
        \<and> fst (spawnSync P ''npm''
                  ([''install'', ''--no-audit'', ''--no-fund''] @
                     (if dev then [] else [''--production'']))
                  dest (if silent then Ignore else Inherit) (fs w)) \<noteq> Some 0 \<longrightarrow>
         (\<exists>w2. installDependencies P dest dev silent w =
                 Returns (log_msg (''[ERROR] Failed to install dependencies for '' @
                                     path_basename dest) ERROR silent w2)))
   \<and> (\<forall>f w3.
         is_file_reference (name, JStr version)
         \<and> existsSync P (store_entry P name) (fs w)
         \<and> lstatSync P (store_entry P name) (fs w) = Inr SymbolicLink
         \<and> rmSync P (store_entry P name) (fs w) = Inr f
         \<and> copyRecursiveSync (stack_limit P) P (source_tree P version) (store_entry P name)
              ((log_msg (''[REPLACE] '' @ name @ '': replacing symlink with copy from '' @
                           strip_file_prefix version) LOG silent w)
                 \<lparr>calls := calls w @ [RmSync (store_entry P name)], fs := f\<rparr>) = Returns w3 \<longrightarrow>
         (\<exists>w4. entry P silent noInstall dev (name, JStr version) w = Returns w4
               \<and> unlink_all P silent noInstall dev ((name, JStr version) # rest) w =
                   unlink_all P silent noInstall dev rest w4))"
proof -
  have isolated: "\<exists>w4. entry P silent noInstall dev (name, JStr version) w = Returns w4
               \<and> unlink_all P silent noInstall dev ((name, JStr version) # rest) w =
                   unlink_all P silent noInstall dev rest w4"
    if "is_file_reference (name, JStr version)"
      and "existsSync P (store_entry P name) (fs w)"
      and "lstatSync P (store_entry P name) (fs w) = Inr SymbolicLink"
      and "rmSync P (store_entry P name) (fs w) = Inr f"
      and "copyRecursiveSync (stack_limit P) P (source_tree P version) (store_entry P name)
              ((log_msg (''[REPLACE] '' @ name @ '': replacing symlink with copy from '' @
                           strip_file_prefix version) LOG silent w)
                 \<lparr>calls := calls w @ [RmSync (store_entry P name)], fs := f\<rparr>) = Returns w3"
    for f w3
  proof -
    obtain w4 where "(if \<not> noInstall then installDependencies P (store_entry P name) dev silent w3
                      else Returns w3) = Returns w4"
      using installDependencies_returns [of P "store_entry P name" dev silent w3]
      by (cases noInstall) auto
    then have "entry P silent noInstall dev (name, JStr version) w = Returns w4"
      using that by (simp add: entry_symlink do_rm_Returns)
    then show ?thesis using that(1) by (simp add: unlink_all_Cons)
  qed
  show ?thesis
    using installDependencies_returns [of P dest dev silent w]
      installDependencies_no_manifest [of P dest w dev silent]
      installDependencies_store_present [of P dest w dev silent]
      installDependencies_failure [of P dest w dev silent]
      isolated
    by blast
qed

theorem installer_self_contained_witness:
  "installDependencies (fixture_port (Some 1)) [''fake'', ''local-package'', ''lib''] False False
     fixture_world =
     Returns (log_msg ''[SKIP] No package.json in /fake/local-package/lib'' LOG False fixture_world)
   \<and> (\<exists>w2. installDependencies (fixture_port (Some 1)) [''fake'', ''local-package''] False False
               fixture_world =
             Returns (log_msg ''[ERROR] Failed to install dependencies for local-package'' ERROR
                        False w2))
   \<and> (\<exists>w4. entry (fixture_port (Some 1)) False False False
               (''local-pkg'', JStr ''file:../local-package'') fixture_world = Returns w4
           \<and> unlink_all (fixture_port (Some 1)) False False False
                 [(''local-pkg'', JStr ''file:../local-package''),
                  (''real-pkg'', JStr ''file:../real-package'')] fixture_world =
               unlink_all (fixture_port (Some 1)) False False False
                 [(''real-pkg'', JStr ''file:../real-package'')] w4)"
proof -
  let ?P = "fixture_port (Some 1)"
  have a: "\<not> existsSync ?P (path_join [''fake'', ''local-package'', ''lib''] ''package.json'')
               (fs fixture_world)"
    by code_simp
  have sp: "show_path [''fake'', ''local-package'', ''lib''] = ''/fake/local-package/lib''"
    by code_simp
  have b: "existsSync ?P (path_join [''fake'', ''local-package''] ''package.json'') (fs fixture_world)
        \<and> \<not> existsSync ?P (path_join [''fake'', ''local-package''] ''node_modules'') (fs fixture_world)
        \<and> fst (spawnSync ?P ''npm''
                  ([''install'', ''--no-audit'', ''--no-fund''] @
                     (if False then [] else [''--production'']))
                  [''fake'', ''local-package''] (if False then Ignore else Inherit)
                  (fs fixture_world)) \<noteq> Some 0"
    by code_simp
  have bn: "path_basename [''fake'', ''local-package''] = ''local-package''"
    by code_simp
  have c: "is_file_reference (''local-pkg'', JStr ''file:../local-package'')
         \<and> existsSync ?P (store_entry ?P ''local-pkg'') (fs fixture_world)
         \<and> lstatSync ?P (store_entry ?P ''local-pkg'') (fs fixture_world) = Inr SymbolicLink"
    by code_simp
  obtain f where f: "rmSync ?P (store_entry ?P ''local-pkg'') (fs fixture_world) = Inr f"
    by (cases "rmSync ?P (store_entry ?P ''local-pkg'') (fs fixture_world)")
       (simp_all add: fixture_port_def posix_def posix_rmSync_def split: option.splits)
  have "returned (copyRecursiveSync (stack_limit ?P) ?P (source_tree ?P ''file:../local-package'')
              (store_entry ?P ''local-pkg'')
              ((log_msg (''[REPLACE] '' @ ''local-pkg'' @ '': replacing symlink with copy from '' @
                           strip_file_prefix ''file:../local-package'') LOG False fixture_world)
                 \<lparr>calls := calls fixture_world @ [RmSync (store_entry ?P ''local-pkg'')],
                   fs := (case rmSync ?P (store_entry ?P ''local-pkg'') (fs fixture_world) of
                            Inr f \<Rightarrow> f | Inl e \<Rightarrow> [])\<rparr>))"
    by code_simp
  then obtain w3 where w3: "copyRecursiveSync (stack_limit ?P) ?P (source_tree ?P ''file:../local-package'')
              (store_entry ?P ''local-pkg'')
              ((log_msg (''[REPLACE] '' @ ''local-pkg'' @ '': replacing symlink with copy from '' @
                           strip_file_prefix ''file:../local-package'') LOG False fixture_world)
                 \<lparr>calls := calls fixture_world @ [RmSync (store_entry ?P ''local-pkg'')],
                   fs := f\<rparr>) = Returns w3"
    using f by (auto elim: returned.elims)
  note t = installer_self_contained [where P = "?P" and w = fixture_world and silent = False
      and dev = False]
  have 1: "installDependencies ?P [''fake'', ''local-package'', ''lib''] False False fixture_world =
     Returns (log_msg ''[SKIP] No package.json in /fake/local-package/lib'' LOG False fixture_world)"
    using t [where dest = "[''fake'', ''local-package'', ''lib'']", THEN conjunct2, THEN conjunct1] a
    by (simp add: sp)
  have 2: "\<exists>w2. installDependencies ?P [''fake'', ''local-package''] False False fixture_world =
             Returns (log_msg ''[ERROR] Failed to install dependencies for local-package'' ERROR
                        False w2)"
    using t [where dest = "[''fake'', ''local-package'']",
        THEN conjunct2, THEN conjunct2, THEN conjunct2, THEN conjunct1] b
    by (simp add: bn)
  have 3: "\<exists>w4. entry ?P False False False
               (''local-pkg'', JStr ''file:../local-package'') fixture_world = Returns w4
           \<and> unlink_all ?P False False False
                 [(''local-pkg'', JStr ''file:../local-package''),
                  (''real-pkg'', JStr ''file:../real-package'')] fixture_world =
               unlink_all ?P False False False
                 [(''real-pkg'', JStr ''file:../real-package'')] w4"
    using t [where name = "''local-pkg''" and version = "''file:../local-package''"
        and noInstall = False and rest = "[(''real-pkg'', JStr ''file:../real-package'')]",
        THEN conjunct2, THEN conjunct2, THEN conjunct2, THEN conjunct2] c f w3
    by blast
  from 1 2 3 show ?thesis by blast
qed

text \<open>
  Claim C7 (fatal manifest), as amended. When the manifest cannot be read or parsed, the
  run throws in the world it started in: no call was issued and nothing was logged. The
  command line then passes the error's message to the log at level \<open>error\<close> and exits
  with status 1; after a run that returned it passes the success message and exits with
  status 0. Either message is printed only when \<open>--silent\<close> is not among the arguments.
\<close>

theorem fatal_manifest:
  fixes P :: "'fs port" and w :: "'fs world"
  shows
  "(\<forall>e. readFileSync P (path_join (cwd P) ''package.json'') (fs w) = Inl e \<longrightarrow>
         unlinkLocalDependencies P opts w = Throws e w)
   \<and> (\<forall>text e. readFileSync P (path_join (cwd P) ''package.json'') (fs w) = Inr text
               \<and> JSON_parse P text = Inl e \<longrightarrow>
         unlinkLocalDependencies P opts w = Throws e w)
   \<and> (''--help'' \<notin> set args \<and> ''-h'' \<notin> set args \<longrightarrow>
        (\<forall>e w1. unlinkLocalDependencies P
                   [(''silently'', ''--silent'' \<in> set args),
                    (''install'', ''--no-install'' \<in> set args),
                    (''dev'', ''--dev'' \<in> set args)] w = Throws e w1 \<longrightarrow>
           cli P args w =
             (log_msg (''Error unlinking local dependencies: '' @ message e) ERROR
                (''--silent'' \<in> set args) w1, 1)
           \<and> console (fst (cli P args w)) =
               (if ''--silent'' \<in> set args then console w1
                else console w1 @ [(ERROR, ''Error unlinking local dependencies: '' @ message e)]))
        \<and> (\<forall>w1. unlinkLocalDependencies P
                   [(''silently'', ''--silent'' \<in> set args),
                    (''install'', ''--no-install'' \<in> set args),
                    (''dev'', ''--dev'' \<in> set args)] w = Returns w1 \<longrightarrow>
           cli P args w =
             (log_msg ''Local dependencies unlinked successfully.'' LOG
                (''--silent'' \<in> set args) w1, 0)
           \<and> console (fst (cli P args w)) =
               (if ''--silent'' \<in> set args then console w1
                else console w1 @ [(LOG, ''Local dependencies unlinked successfully.'')])))"
proof -
  have missing: "unlinkLocalDependencies P opts w = Throws e w"
    if "readFileSync P (path_join (cwd P) ''package.json'') (fs w) = Inl e" for e
    using that by (simp add: unlinkLocalDependencies_unfold)
  have malformed: "unlinkLocalDependencies P opts w = Throws e w"
    if "readFileSync P (path_join (cwd P) ''package.json'') (fs w) = Inr content"
      and "JSON_parse P content = Inl e" for content e
    using that by (simp add: unlinkLocalDependencies_unfold)
  have failed: "cli P args w =
             (log_msg (''Error unlinking local dependencies: '' @ message e) ERROR
                (''--silent'' \<in> set args) w1, 1)
           \<and> console (fst (cli P args w)) =
               (if ''--silent'' \<in> set args then console w1
                else console w1 @ [(ERROR, ''Error unlinking local dependencies: '' @ message e)])"
    if "''--help'' \<notin> set args" "''-h'' \<notin> set args"
      and "unlinkLocalDependencies P
                   [(''silently'', ''--silent'' \<in> set args),
                    (''install'', ''--no-install'' \<in> set args),
                    (''dev'', ''--dev'' \<in> set args)] w = Throws e w1" for e w1
    using that unfolding cli_def Let_def by simp
  have succeeded: "cli P args w =
             (log_msg ''Local dependencies unlinked successfully.'' LOG
                (''--silent'' \<in> set args) w1, 0)
           \<and> console (fst (cli P args w)) =
               (if ''--silent'' \<in> set args then console w1
                else console w1 @ [(LOG, ''Local dependencies unlinked successfully.'')])"
    if "''--help'' \<notin> set args" "''-h'' \<notin> set args"
      and "unlinkLocalDependencies P
                   [(''silently'', ''--silent'' \<in> set args),
                    (''install'', ''--no-install'' \<in> set args),
                    (''dev'', ''--dev'' \<in> set args)] w = Returns w1" for w1
    using that unfolding cli_def Let_def by simp
  show ?thesis
    using missing malformed failed succeeded by blast
qed

theorem fatal_manifest_witness:
  "unlinkLocalDependencies (fixture_port (Some 0)) [] empty_world = Throws ENOENT empty_world
   \<and> cli (fixture_port (Some 0)) [] empty_world =
       (log_msg ''Error unlinking local dependencies: ENOENT: no such file or directory'' ERROR
          False empty_world, 1)
   \<and> console (fst (cli (fixture_port (Some 0)) [] empty_world)) =
       [(ERROR, ''Error unlinking local dependencies: ENOENT: no such file or directory'')]
   \<and> snd (cli (fixture_port (Some 0)) [''--dev''] fixture_world) = 0"
proof -
  let ?P = "fixture_port (Some 0)"
  have r: "readFileSync ?P (path_join (cwd ?P) ''package.json'') (fs empty_world) = Inl ENOENT"
    by code_simp
  have m: "message ENOENT = ''ENOENT: no such file or directory''"
    by code_simp
  have c: "console empty_world = []"
    by code_simp
  note t = fatal_manifest [where P = "?P"]
  have 1: "unlinkLocalDependencies ?P opts empty_world = Throws ENOENT empty_world" for opts
    using t [where w = empty_world and opts = opts, THEN conjunct1] r by blast
  have 2: "cli ?P [] empty_world =
       (log_msg ''Error unlinking local dependencies: ENOENT: no such file or directory'' ERROR
          False empty_world, 1)
     \<and> console (fst (cli ?P [] empty_world)) =
       [(ERROR, ''Error unlinking local dependencies: ENOENT: no such file or directory'')]"
    using t [where w = empty_world and args = "[]", THEN conjunct2, THEN conjunct2]
      1 [of "[(''silently'', False), (''install'', False), (''dev'', False)]"] m c
    by simp
  have "returned (unlinkLocalDependencies ?P
                   [(''silently'', ''--silent'' \<in> set [''--dev'']),
                    (''install'', ''--no-install'' \<in> set [''--dev'']),
                    (''dev'', ''--dev'' \<in> set [''--dev''])] fixture_world)"
    by code_simp
  then obtain w1 where "unlinkLocalDependencies ?P
                   [(''silently'', ''--silent'' \<in> set [''--dev'']),
                    (''install'', ''--no-install'' \<in> set [''--dev'']),
                    (''dev'', ''--dev'' \<in> set [''--dev''])] fixture_world = Returns w1"
    by (auto elim: returned.elims)
  then have 3: "snd (cli ?P [''--dev''] fixture_world) = 0"
    using t [where w = fixture_world and args = "[''--dev'']", THEN conjunct2, THEN conjunct2]
    by simp
  from 1 [of "[]"] 2 3 show ?thesis by blast
qed

text \<open>
  With \<open>--silent\<close> the command line prints neither message: on a project without a
  manifest it exits with status 1 and an empty console, and after a run that returned it
  exits with status 0 without the success message.
\<close>

theorem silent_error_not_printed:
  "unlinkLocalDependencies (fixture_port (Some 0))
     [(''silently'', True), (''install'', False), (''dev'', False)] empty_world =
     Throws ENOENT empty_world
   \<and> snd (cli (fixture_port (Some 0)) [''--silent''] empty_world) = 1
   \<and> console (fst (cli (fixture_port (Some 0)) [''--silent''] empty_world)) = []
   \<and> snd (cli (fixture_port (Some 0)) [''--silent''] fixture_world) = 0
   \<and> (LOG, ''Local dependencies unlinked successfully.'')
        \<notin> set (console (fst (cli (fixture_port (Some 0)) [''--silent''] fixture_world)))"
  by code_simp

lemma unlink_all_filter:
  "unlink_all P silent noInstall dev (filter is_file_reference allDeps) w =
   unlink_all P silent noInstall dev allDeps w"
  by (simp add: unlink_all_def)

lemma unlink_all_skip:
  "\<not> is_file_reference e \<Longrightarrow>
   unlink_all P silent noInstall dev (before @ e # after) w =
   unlink_all P silent noInstall dev (before @ after) w"
  by (simp add: unlink_all_def)

lemma unlink_all_nothing:
  "\<forall>e \<in> set allDeps. \<not> is_file_reference e \<Longrightarrow>
   unlink_all P silent noInstall dev allDeps w = Returns w"
proof -
  assume "\<forall>e \<in> set allDeps. \<not> is_file_reference e"
  then have "filter is_file_reference allDeps = []"
    by (simp add: filter_empty_conv)
  then show ?thesis by (simp add: unlink_all_def)
qed

text \<open>
  Claim C9 (filter correctness). A specifier that does not begin with \<open>file:\<close> is not a
  file-path reference, and a dependency that is not a file-path reference changes nothing
  in a run: the run is the one without it. When no merged dependency is a file-path
  reference the run returns the world it started in.
\<close>

theorem filter_correctness:
  fixes P :: "'fs port" and w :: "'fs world"
  shows
  "(take 5 version \<noteq> ''file:'' \<longrightarrow> \<not> is_file_reference (name, JStr version))
   \<and> (\<not> is_file_reference e \<longrightarrow>
         unlink_all P silent noInstall dev (before @ e # after) w =
         unlink_all P silent noInstall dev (before @ after) w)
   \<and> ((\<forall>e \<in> set allDeps. \<not> is_file_reference e) \<longrightarrow>
         unlink_all P silent noInstall dev allDeps w = Returns w)
   \<and> (\<forall>content pkg.
         readFileSync P (path_join (cwd P) ''package.json'') (fs w) = Inr content
         \<and> JSON_parse P content = Inr pkg \<and> all_dependencies pkg = Inr allDeps
         \<and> (\<forall>e \<in> set allDeps. \<not> is_file_reference e) \<longrightarrow>
         unlinkLocalDependencies P opts w = Returns w)"
proof -
  have whole: "unlinkLocalDependencies P opts w = Returns w"
    if "readFileSync P (path_join (cwd P) ''package.json'') (fs w) = Inr content"
      and "JSON_parse P content = Inr pkg" and "all_dependencies pkg = Inr allDeps"
      and "\<forall>e \<in> set allDeps. \<not> is_file_reference e" for content pkg
    using that by (simp add: unlinkLocalDependencies_unfold unlink_all_nothing)
  have prefix: "\<not> is_file_reference (name, JStr version)" if "take 5 version \<noteq> ''file:''"
    using that by (simp add: is_file_reference_def)
  show ?thesis
    using prefix whole unlink_all_skip [of e P silent noInstall dev before after w]
      unlink_all_nothing [of allDeps P silent noInstall dev w]
    by blast
qed

theorem filter_correctness_witness:
  "\<not> is_file_reference (''regular'', JStr ''^1.0.0'')
   \<and> \<not> is_file_reference (''gitdep'', JStr ''git+https://github.com/x/y.git'')
   \<and> unlink_all (fixture_port (Some 0)) False False False
         [(''local-pkg'', JStr ''file:../local-package''), (''regular'', JStr ''^1.0.0''),
          (''real-pkg'', JStr ''file:../real-package'')] fixture_world =
       unlink_all (fixture_port (Some 0)) False False False
         [(''local-pkg'', JStr ''file:../local-package''),
          (''real-pkg'', JStr ''file:../real-package'')] fixture_world
   \<and> unlinkLocalDependencies registry_port [] fixture_world = Returns fixture_world"
proof -
  note t = filter_correctness [where w = fixture_world]
  have a: "take 5 ''^1.0.0'' \<noteq> ''file:''" by simp
  have b: "take 5 ''git+https://github.com/x/y.git'' \<noteq> ''file:''" by simp
  have 1: "\<not> is_file_reference (''regular'', JStr ''^1.0.0'')"
    using t [where version = "''^1.0.0''" and name = "''regular''", THEN conjunct1] a by blast
  have 2: "\<not> is_file_reference (''gitdep'', JStr ''git+https://github.com/x/y.git'')"
    using t [where version = "''git+https://github.com/x/y.git''" and name = "''gitdep''",
        THEN conjunct1] b by blast
  have 3: "unlink_all (fixture_port (Some 0)) False False False
         ([(''local-pkg'', JStr ''file:../local-package'')] @ (''regular'', JStr ''^1.0.0'') #
          [(''real-pkg'', JStr ''file:../real-package'')]) fixture_world =
       unlink_all (fixture_port (Some 0)) False False False
         ([(''local-pkg'', JStr ''file:../local-package'')] @
          [(''real-pkg'', JStr ''file:../real-package'')]) fixture_world"
    using t [where e = "(''regular'', JStr ''^1.0.0'')" and P = "fixture_port (Some 0)",
        THEN conjunct2, THEN conjunct1] 1 by blast
  have r: "readFileSync registry_port (path_join (cwd registry_port) ''package.json'')
             (fs fixture_world) = Inr ''manifest''
           \<and> JSON_parse registry_port ''manifest'' = Inr registry_manifest
           \<and> all_dependencies registry_manifest =
               Inr [(''regular'', JStr ''^1.0.0''),
                    (''gitdep'', JStr ''git+https://github.com/x/y.git'')]"
    by code_simp
  have n: "\<forall>e \<in> set [(''regular'', JStr ''^1.0.0''),
                    (''gitdep'', JStr ''git+https://github.com/x/y.git'')]. \<not> is_file_reference e"
    using 1 2 by simp
  have 4: "unlinkLocalDependencies registry_port [] fixture_world = Returns fixture_world"
    using t [where P = registry_port and opts = "[]"
        and allDeps = "[(''regular'', JStr ''^1.0.0''),
                    (''gitdep'', JStr ''git+https://github.com/x/y.git'')]",
        THEN conjunct2, THEN conjunct2, THEN conjunct2] r n by blast
  from 1 2 3 4 show ?thesis by simp
qed

lemma not_string_not_reference: "\<forall>s. v \<noteq> JStr s \<Longrightarrow> \<not> is_file_reference (name, v)"
  by (cases v) (simp_all add: is_file_reference_def)

lemma entry_not_string:
  "\<forall>s. v \<noteq> JStr s \<Longrightarrow>
   entry P silent noInstall dev (name, v) w =
     Throws (TypeError ''version.replace is not a function'') w"
  by (cases v) (simp_all add: entry_def unlink_entry_def)

lemma all_dependencies_object: "\<exists>allDeps. all_dependencies (JObj members) = Inr allDeps"
  by (simp add: all_dependencies_def)

text \<open>
  Claim C10 (specifiers that are not strings). Merging the groups of a manifest object
  never throws, whatever the values are. A value that is not a string is not a file-path
  reference, so the run is the one without that dependency; the loop's body, which would
  throw on it, is never called on it.
\<close>

theorem non_string_specifiers_safe:
  fixes P :: "'fs port" and w :: "'fs world"
  shows
  "(\<exists>allDeps. all_dependencies (JObj members) = Inr allDeps)
   \<and> ((\<forall>s. v \<noteq> JStr s) \<longrightarrow>
        \<not> is_file_reference (name, v)
        \<and> unlink_all P silent noInstall dev (before @ (name, v) # after) w =
            unlink_all P silent noInstall dev (before @ after) w
        \<and> entry P silent noInstall dev (name, v) w =
            Throws (TypeError ''version.replace is not a function'') w)"
  using all_dependencies_object [of members] not_string_not_reference [of v name]
    unlink_all_skip [of "(name, v)" P silent noInstall dev before after w]
    entry_not_string [of v P silent noInstall dev name w]
  by blast

theorem non_string_specifiers_safe_witness:
  "\<not> is_file_reference (''odd'', JNum (Finite 1))
   \<and> \<not> is_file_reference (''odd'', JObj [(''version'', JStr ''file:../x'')])
   \<and> unlink_all (fixture_port (Some 0)) False False False
         [(''odd'', JNum (Finite 1)), (''real-pkg'', JStr ''file:../real-package'')] fixture_world =
       unlink_all (fixture_port (Some 0)) False False False
         [(''real-pkg'', JStr ''file:../real-package'')] fixture_world"
proof -
  note t = non_string_specifiers_safe [where w = fixture_world and P = "fixture_port (Some 0)"
      and silent = False and noInstall = False and dev = False]
  have a: "\<forall>s. JNum (Finite 1) \<noteq> JStr s" by simp
  have b: "\<forall>s. JObj [(''version'', JStr ''file:../x'')] \<noteq> JStr s" by simp
  have 1: "\<not> is_file_reference (''odd'', JNum (Finite 1))"
    using t [where v = "JNum (Finite 1)" and name = "''odd''", THEN conjunct2] a by blast
  have 2: "\<not> is_file_reference (''odd'', JObj [(''version'', JStr ''file:../x'')])"
    using t [where v = "JObj [(''version'', JStr ''file:../x'')]" and name = "''odd''",
        THEN conjunct2] b by blast
  have 3: "unlink_all (fixture_port (Some 0)) False False False
         ([] @ (''odd'', JNum (Finite 1)) # [(''real-pkg'', JStr ''file:../real-package'')])
         fixture_world =
       unlink_all (fixture_port (Some 0)) False False False
         ([] @ [(''real-pkg'', JStr ''file:../real-package'')]) fixture_world"
    using t [where v = "JNum (Finite 1)" and name = "''odd''" and before = "[]"
        and after = "[(''real-pkg'', JStr ''file:../real-package'')]", THEN conjunct2] a by blast
  from 1 2 3 show ?thesis by simp
qed

text \<open>Defining properties one after the other: the last definition of a key gives its value.\<close>

lemma map_of_insert_index:
  "fst kv \<notin> fst ` set obj \<Longrightarrow> map_of (insert_index i kv obj) = (map_of obj)(fst kv \<mapsto> snd kv)"
proof (induction obj)
  case Nil
  then show ?case by (cases kv) simp
next
  case (Cons e es)
  then show ?case
    by (cases kv; cases e) (auto split: option.splits simp: fun_upd_twist)
qed

lemma keys_insert_index: "fst ` set (insert_index i kv obj) = insert (fst kv) (fst ` set obj)"
  by (induction obj) (auto split: option.splits)

lemma distinct_insert_index:
  "fst kv \<notin> fst ` set obj \<Longrightarrow> distinct (map fst obj) \<Longrightarrow>
   distinct (map fst (insert_index i kv obj))"
proof (induction obj)
  case Nil
  then show ?case by simp
next
  case (Cons e es)
  then show ?case
    using keys_insert_index [of i kv es]
    by (auto split: option.splits)
qed

lemma map_of_define_property:
  "map_of (define_property obj kv) = (map_of obj)(fst kv \<mapsto> snd kv)"
proof (cases "fst kv \<in> fst ` set obj")
  case True
  then show ?thesis by (simp add: define_property_def update_conv')
next
  case False
  then have "map_of obj (fst kv) = None"
    by (simp add: map_of_eq_None_iff)
  then have "map_of (obj @ [kv]) = (map_of obj)(fst kv \<mapsto> snd kv)"
    by (cases kv) (auto simp: map_add_def fun_eq_iff split: option.splits)
  with False show ?thesis
    by (simp add: define_property_def map_of_insert_index split: option.splits)
qed

lemma distinct_define_property:
  "distinct (map fst obj) \<Longrightarrow> distinct (map fst (define_property obj kv))"
  by (auto simp: define_property_def distinct_update distinct_insert_index split: option.splits)

lemma map_of_foldl_define:
  "map_of (foldl define_property obj kvs) = map_of obj ++ map_of (rev kvs)"
proof (induction kvs arbitrary: obj)
  case Nil
  then show ?case by simp
next
  case (Cons kv kvs)
  have "map_of (foldl define_property obj (kv # kvs)) =
        map_of (define_property obj kv) ++ map_of (rev kvs)"
    by (simp add: Cons.IH)
  also have "\<dots> = (map_of obj)(fst kv \<mapsto> snd kv) ++ map_of (rev kvs)"
    by (simp only: map_of_define_property)
  also have "\<dots> = map_of obj ++ map_of (rev (kv # kvs))"
    by (cases kv) (auto simp: map_add_def fun_eq_iff split: option.splits)
  finally show ?case .
qed

lemma distinct_foldl_define:
  "distinct (map fst obj) \<Longrightarrow> distinct (map fst (foldl define_property obj kvs))"
  by (induction kvs arbitrary: obj) (simp_all add: distinct_define_property)

lemma distinct_object_of: "distinct (map fst (object_of kvs))"
  by (simp add: object_of_def distinct_foldl_define)

lemma distinct_own_properties: "distinct (map fst (own_properties v))"
  by (cases v) (simp_all add: distinct_object_of)

lemma map_of_rev_distinct: "distinct (map fst xs) \<Longrightarrow> map_of (rev xs) = map_of xs"
proof (induction xs)
  case Nil
  then show ?case by simp
next
  case (Cons x xs)
  then have "map_of xs (fst x) = None"
    by (simp add: map_of_eq_None_iff)
  with Cons show ?case
    by (cases x) (auto simp: map_add_def fun_eq_iff split: option.splits)
qed

lemma get_property_defined: "pkg \<noteq> JNull \<Longrightarrow> \<exists>v. get_property pkg key = Inr v"
  by (cases pkg) simp_all

lemma all_dependencies_merged:
  assumes "pkg \<noteq> JNull"
  shows "all_dependencies pkg =
           Inr (foldl define_property []
                  (group pkg ''dependencies'' @ group pkg ''devDependencies'' @
                   group pkg ''peerDependencies'' @ group pkg ''optionalDependencies''))"
proof -
  obtain a b c d where "get_property pkg ''dependencies'' = Inr a"
    and "get_property pkg ''devDependencies'' = Inr b"
    and "get_property pkg ''peerDependencies'' = Inr c"
    and "get_property pkg ''optionalDependencies'' = Inr d"
    using get_property_defined [OF assms] by metis
  then show ?thesis
    by (simp add: all_dependencies_def group_def)
qed

lemma distinct_group: "distinct (map fst (group pkg key))"
  by (simp add: group_def distinct_own_properties split: sum.splits)

text \<open>
  Claim C2 (merge precedence). For a manifest that is not \<open>null\<close> the merge succeeds, has
  one entry per name, and maps each name to its value in the last of the groups
  \<open>dependencies\<close>, \<open>devDependencies\<close>, \<open>peerDependencies\<close>, \<open>optionalDependencies\<close>
  that has it. In particular a name of \<open>devDependencies\<close> that is in neither of the two
  later groups is merged with its \<open>devDependencies\<close> value and no other, whatever
  \<open>dependencies\<close> says. The run works on the merged entries.
\<close>

theorem merge_precedence:
  fixes P :: "'fs port" and w :: "'fs world"
  shows
  "pkg \<noteq> JNull \<longrightarrow>
     (\<exists>merged.
        all_dependencies pkg = Inr merged
        \<and> distinct (map fst merged)
        \<and> map_of merged =
            map_of (group pkg ''dependencies'') ++ map_of (group pkg ''devDependencies'') ++
            map_of (group pkg ''peerDependencies'') ++ map_of (group pkg ''optionalDependencies'')
        \<and> (\<forall>name v.
              map_of (group pkg ''devDependencies'') name = Some v
              \<and> map_of (group pkg ''peerDependencies'') name = None
              \<and> map_of (group pkg ''optionalDependencies'') name = None \<longrightarrow>
              (name, v) \<in> set merged \<and> (\<forall>v'. (name, v') \<in> set merged \<longrightarrow> v' = v))
        \<and> (\<forall>content.
              readFileSync P (path_join (cwd P) ''package.json'') (fs w) = Inr content
              \<and> JSON_parse P content = Inr pkg \<longrightarrow>
              unlinkLocalDependencies P opts w =
                unlink_all P (option_or_false opts ''silent'') (option_or_false opts ''noInstall'')
                  (option_or_false opts ''dev'') merged w))"
proof
  assume pkg: "pkg \<noteq> JNull"
  define merged where "merged = foldl define_property []
                  (group pkg ''dependencies'' @ group pkg ''devDependencies'' @
                   group pkg ''peerDependencies'' @ group pkg ''optionalDependencies'')"
  have all: "all_dependencies pkg = Inr merged"
    using all_dependencies_merged [OF pkg] by (simp add: merged_def)
  have dist: "distinct (map fst merged)"
    by (simp add: merged_def distinct_foldl_define)
  have "map_of merged =
          map_of (rev (group pkg ''dependencies'')) ++ map_of (rev (group pkg ''devDependencies'')) ++
          map_of (rev (group pkg ''peerDependencies'')) ++
          map_of (rev (group pkg ''optionalDependencies''))"
    by (simp add: merged_def map_of_foldl_define)
  then have maps: "map_of merged =
            map_of (group pkg ''dependencies'') ++ map_of (group pkg ''devDependencies'') ++
            map_of (group pkg ''peerDependencies'') ++ map_of (group pkg ''optionalDependencies'')"
    by (simp add: map_of_rev_distinct distinct_group)
  have acted: "(name, v) \<in> set merged \<and> (\<forall>v'. (name, v') \<in> set merged \<longrightarrow> v' = v)"
    if "map_of (group pkg ''devDependencies'') name = Some v"
      and "map_of (group pkg ''peerDependencies'') name = None"
      and "map_of (group pkg ''optionalDependencies'') name = None" for name v
  proof -
    have "map_of merged name = Some v"
      using that by (simp add: maps map_add_def)
    then show ?thesis
      using map_of_eq_Some_iff [OF dist, of name] by (metis option.inject)
  qed
  have run: "unlinkLocalDependencies P opts w =
                unlink_all P (option_or_false opts ''silent'') (option_or_false opts ''noInstall'')
                  (option_or_false opts ''dev'') merged w"
    if "readFileSync P (path_join (cwd P) ''package.json'') (fs w) = Inr content"
      and "JSON_parse P content = Inr pkg" for content
    using that all by (simp add: unlinkLocalDependencies_unfold)
  show "\<exists>merged.
        all_dependencies pkg = Inr merged
        \<and> distinct (map fst merged)
        \<and> map_of merged =
            map_of (group pkg ''dependencies'') ++ map_of (group pkg ''devDependencies'') ++
            map_of (group pkg ''peerDependencies'') ++ map_of (group pkg ''optionalDependencies'')
        \<and> (\<forall>name v.
              map_of (group pkg ''devDependencies'') name = Some v
              \<and> map_of (group pkg ''peerDependencies'') name = None
              \<and> map_of (group pkg ''optionalDependencies'') name = None \<longrightarrow>
              (name, v) \<in> set merged \<and> (\<forall>v'. (name, v') \<in> set merged \<longrightarrow> v' = v))
        \<and> (\<forall>content.
              readFileSync P (path_join (cwd P) ''package.json'') (fs w) = Inr content
              \<and> JSON_parse P content = Inr pkg \<longrightarrow>
              unlinkLocalDependencies P opts w =
                unlink_all P (option_or_false opts ''silent'') (option_or_false opts ''noInstall'')
                  (option_or_false opts ''dev'') merged w)"
    using all dist maps acted run by blast
qed

theorem merge_precedence_witness:
  "colliding_manifest \<noteq> JNull
   \<and> all_dependencies colliding_manifest =
       Inr [(''local-pkg'', JStr ''file:../local-package''), (''other'', JStr ''file:../other'')]
   \<and> map_of (group colliding_manifest ''dependencies'') ''local-pkg'' =
       Some (JStr ''file:../runtime-package'')
   \<and> (''local-pkg'', JStr ''file:../local-package'')
        \<in> set [(''local-pkg'', JStr ''file:../local-package''), (''other'', JStr ''file:../other'')]
   \<and> (''local-pkg'', JStr ''file:../runtime-package'')
        \<notin> set [(''local-pkg'', JStr ''file:../local-package''), (''other'', JStr ''file:../other'')]"
proof -
  have r: "map_of (group colliding_manifest ''dependencies'') ''local-pkg'' =
       Some (JStr ''file:../runtime-package'')"
    by code_simp
  have n: "colliding_manifest \<noteq> JNull"
    by (simp add: colliding_manifest_def)
  have e: "all_dependencies colliding_manifest =
       Inr [(''local-pkg'', JStr ''file:../local-package''), (''other'', JStr ''file:../other'')]"
    by code_simp
  have g: "map_of (group colliding_manifest ''devDependencies'') ''local-pkg'' =
             Some (JStr ''file:../local-package'')
           \<and> map_of (group colliding_manifest ''peerDependencies'') ''local-pkg'' = None
           \<and> map_of (group colliding_manifest ''optionalDependencies'') ''local-pkg'' = None"
    by code_simp
  from merge_precedence [where pkg = colliding_manifest, THEN mp, OF n]
  obtain merged where m: "all_dependencies colliding_manifest = Inr merged"
    and a: "\<forall>name v.
              map_of (group colliding_manifest ''devDependencies'') name = Some v
              \<and> map_of (group colliding_manifest ''peerDependencies'') name = None
              \<and> map_of (group colliding_manifest ''optionalDependencies'') name = None \<longrightarrow>
              (name, v) \<in> set merged \<and> (\<forall>v'. (name, v') \<in> set merged \<longrightarrow> v' = v)"
    by blast
  from m e have "merged = [(''local-pkg'', JStr ''file:../local-package''), (''other'', JStr ''file:../other'')]"
    by simp
  with a g
  have "(''local-pkg'', JStr ''file:../local-package'')
        \<in> set [(''local-pkg'', JStr ''file:../local-package''), (''other'', JStr ''file:../other'')]
     \<and> (''local-pkg'', JStr ''file:../runtime-package'')
        \<notin> set [(''local-pkg'', JStr ''file:../local-package''), (''other'', JStr ''file:../other'')]"
    by blast
  with n e r show ?thesis by blast
qed

text \<open>
  Claim C3 (command-line flags). The command line passes the flags under the names
  \<open>silently\<close>, \<open>install\<close> and \<open>dev\<close>; the run reads \<open>silent\<close>, \<open>noInstall\<close> and
  \<open>dev\<close>. So with \<open>--no-install --silent\<close> the run still reads both options as false:
  on the project above it runs the install command and prints its messages.
\<close>

theorem cli_flags_not_received:
  "option_or_false [(''silently'', True), (''install'', True), (''dev'', False)] ''silent'' = False
   \<and> option_or_false [(''silently'', True), (''install'', True), (''dev'', False)] ''noInstall'' = False
   \<and> filter is_spawn
         (calls (fst (cli (fixture_port (Some 0)) [''--no-install'', ''--silent''] fixture_world))) =
       [SpawnSync ''npm'' [''install'', ''--no-audit'', ''--no-fund'', ''--production'']
          [''fake'', ''project'', ''node_modules'', ''local-pkg''] Inherit]
   \<and> map fst (console (fst (cli (fixture_port (Some 0)) [''--no-install'', ''--silent'']
                               fixture_world))) =
       [LOG, LOG, LOG, WARN]"
  by code_simp

lemma split_slash_no_slash: "CHR ''/'' \<notin> set s \<Longrightarrow> split_slash s = [s]"
  by (induction s) auto

lemma path_join_simple: "simple_name c \<Longrightarrow> path_join p c = p @ [c]"
  by (simp add: path_join_def simple_name_def split_slash_no_slash)

lemma lookup_root [simp]: "lookup f [] = Some Dir"
  by (simp add: lookup_def)

lemma lookup_nonempty: "p \<noteq> [] \<Longrightarrow> lookup f p = map_of f p"
  by (simp add: lookup_def)

lemma strict_prefix_snoc_iff: "strict_prefix q (p @ [c]) = prefix q p"
proof -
  have "q \<noteq> p @ [c]" if "prefix q p"
    using prefix_length_le [OF that] by auto
  then show ?thesis
    unfolding strict_prefix_def prefix_snoc by blast
qed

lemma dirs_above_snoc:
  "dirs_above f (p @ [c]) = (dirs_above f p \<and> lookup f p = Some Dir)"
proof -
  have "dirs_above f (p @ [c]) = (\<forall>q. prefix q p \<longrightarrow> lookup f q = Some Dir)"
    by (simp add: dirs_above_def strict_prefix_snoc_iff)
  also have "\<dots> = (dirs_above f p \<and> lookup f p = Some Dir)"
    unfolding dirs_above_def prefix_order.le_less by blast
  finally show ?thesis .
qed

lemma dirs_above_Nil [simp]: "dirs_above f []"
  by (simp add: dirs_above_def)

lemma walk_append:
  "dirs_above f (cur @ cs) \<Longrightarrow> lookup f (cur @ cs) = Some Dir \<Longrightarrow>
   walk k f cur (cs @ ds) = walk k f (cur @ cs) ds"
proof (induction cs arbitrary: cur)
  case Nil
  then show ?case by simp
next
  case (Cons c cs)
  have head: "lookup f (cur @ [c]) = Some Dir"
  proof (cases "cs = []")
    case True
    then show ?thesis using Cons.prems(2) by simp
  next
    case False
    then have "strict_prefix (cur @ [c]) (cur @ c # cs)"
      by (simp add: strict_prefix_def)
    then show ?thesis using Cons.prems(1) by (simp add: dirs_above_def)
  qed
  have "walk k f (cur @ [c]) (cs @ ds) = walk k f ((cur @ [c]) @ cs) ds"
    using Cons.prems by (intro Cons.IH) simp_all
  with head show ?case by simp
qed

lemma realpath_dir:
  assumes "dirs_above f p" and "lookup f p = Some Dir"
  shows "realpath f p = Some p"
  using walk_append [of f "[]" p 40 "[]"] assms by (simp add: realpath_def)

lemma realpath_entry:
  assumes "dirs_above f (d @ [c])"
  shows "realpath f (d @ [c]) =
           (case lookup f (d @ [c]) of
              None \<Rightarrow> None
            | Some (File b) \<Rightarrow> Some (d @ [c])
            | Some Dir \<Rightarrow> Some (d @ [c])
            | Some (Link t) \<Rightarrow> walk 39 f [] t)"
proof -
  have "walk 40 f [] (d @ [c]) = walk 40 f d [c]"
    using walk_append [of f "[]" d 40 "[c]"] assms by (simp add: dirs_above_snoc)
  then show ?thesis
    by (simp add: realpath_def split: option.splits node.splits)
qed

lemma locate_entry:
  assumes "dirs_above f (d @ [c])"
  shows "locate f (d @ [c]) = Some (d @ [c])"
  using assms realpath_dir [of f d] by (simp add: locate_def dirs_above_snoc)

lemma posix_fields [simp]:
  "cwd (posix d l pr sp) = d"
  "stack_limit (posix d l pr sp) = l"
  "JSON_parse (posix d l pr sp) = pr"
  "existsSync (posix d l pr sp) = posix_existsSync"
  "lstatSync (posix d l pr sp) = posix_lstatSync"
  "statSync (posix d l pr sp) = posix_statSync"
  "readdirSync (posix d l pr sp) = posix_readdirSync"
  "readFileSync (posix d l pr sp) = posix_readFileSync"
  "mkdirSync (posix d l pr sp) = posix_mkdirSync"
  "copyFileSync (posix d l pr sp) = posix_copyFileSync"
  "rmSync (posix d l pr sp) = posix_rmSync"
  "spawnSync (posix d l pr sp) = sp"
  by (simp_all add: posix_def)

lemma lookup_update:
  "k \<noteq> [] \<Longrightarrow> lookup (AList.update k v f) q = (if q = k then Some v else lookup f q)"
  by (simp add: lookup_def update_conv')

lemma map_of_filter_key:
  "map_of (filter (\<lambda>e. P (fst e)) f) q = (if P q then map_of f q else None)"
  by (induction f) auto

lemma lookup_remove:
  "k \<noteq> [] \<Longrightarrow>
   lookup (filter (\<lambda>e. \<not> prefix k (fst e)) f) q = (if prefix k q then None else lookup f q)"
  using map_of_filter_key [of "\<lambda>p. \<not> prefix k p" f q] by (auto simp: lookup_def)

lemma lookup_Some_key: "lookup f p = Some n \<Longrightarrow> p \<noteq> [] \<Longrightarrow> (p, n) \<in> set f"
  by (simp add: lookup_def map_of_SomeD)

lemma set_children: "set (children f d) = {c. lookup f (d @ [c]) \<noteq> None}"
proof (intro set_eqI iffI)
  fix c assume "c \<in> set (children f d)"
  then obtain e where e: "e \<in> set f" "fst e \<noteq> []" "butlast (fst e) = d" "c = last (fst e)"
    by (auto simp: children_def)
  then have "fst e = d @ [c]"
    by (metis append_butlast_last_id)
  with e(1) have "d @ [c] \<in> fst ` set f" by force
  then have "map_of f (d @ [c]) \<noteq> None"
    by (simp add: map_of_eq_None_iff)
  then show "c \<in> {c. lookup f (d @ [c]) \<noteq> None}"
    by (simp add: lookup_def)
next
  fix c assume "c \<in> {c. lookup f (d @ [c]) \<noteq> None}"
  then obtain n where "lookup f (d @ [c]) = Some n" by auto
  then have "(d @ [c], n) \<in> set f"
    by (intro lookup_Some_key) simp_all
  then have "last (fst (d @ [c], n)) \<in> set (children f d)"
    unfolding children_def set_remdups set_map
    by (intro imageI) simp
  then show "c \<in> set (children f d)" by simp
qed

lemma distinct_children: "distinct (children f d)"
  by (simp add: children_def)

text \<open>The operations on a path whose directories exist as such.\<close>

lemma existsSync_entry:
  assumes "dirs_above f (d @ [c])"
  shows "posix_existsSync (d @ [c]) f =
           (case lookup f (d @ [c]) of
              None \<Rightarrow> False
            | Some (Link t) \<Rightarrow> walk 39 f [] t \<noteq> None
            | Some n \<Rightarrow> True)"
  using assms by (simp add: posix_existsSync_def realpath_entry split: option.splits node.splits)

lemma lstatSync_entry:
  assumes "dirs_above f (d @ [c])"
  shows "posix_lstatSync (d @ [c]) f =
           (case lookup f (d @ [c]) of None \<Rightarrow> Inl ENOENT | Some n \<Rightarrow> Inr (kind n))"
  using assms by (simp add: posix_lstatSync_def locate_entry)

lemma statSync_entry:
  assumes "dirs_above f (d @ [c])" and "lookup f (d @ [c]) = Some n" and "\<forall>t. n \<noteq> Link t"
  shows "posix_statSync (d @ [c]) f = Inr (kind n)"
  using assms by (cases n) (simp_all add: posix_statSync_def realpath_entry)

lemma readdirSync_dir:
  assumes "dirs_above f p" and "lookup f p = Some Dir"
  shows "posix_readdirSync p f = Inr (children f p)"
  using assms by (simp add: posix_readdirSync_def realpath_dir)

lemma mkdirp_append:
  "dirs_above f (cur @ cs) \<Longrightarrow> lookup f (cur @ cs) = Some Dir \<Longrightarrow>
   mkdirp f cur (cs @ ds) = mkdirp f (cur @ cs) ds"
proof (induction cs arbitrary: cur)
  case Nil
  then show ?case by simp
next
  case (Cons c cs)
  have head: "lookup f (cur @ [c]) = Some Dir"
  proof (cases "cs = []")
    case True
    then show ?thesis using Cons.prems(2) by simp
  next
    case False
    then have "strict_prefix (cur @ [c]) (cur @ c # cs)"
      by (simp add: strict_prefix_def)
    then show ?thesis using Cons.prems(1) by (simp add: dirs_above_def)
  qed
  have "mkdirp f (cur @ [c]) (cs @ ds) = mkdirp f ((cur @ [c]) @ cs) ds"
    using Cons.prems by (intro Cons.IH) simp_all
  with head show ?case by simp
qed

lemma mkdirSync_entry:
  assumes "dirs_above f (d @ [c])"
  shows "posix_mkdirSync (d @ [c]) f =
           (case lookup f (d @ [c]) of
              None \<Rightarrow> Inr (AList.update (d @ [c]) Dir f)
            | Some Dir \<Rightarrow> Inr f
            | Some (File b) \<Rightarrow> Inl EEXIST
            | Some (Link t) \<Rightarrow>
                (case realpath f t of
                   None \<Rightarrow> Inl EEXIST
                 | Some q \<Rightarrow> if lookup f q = Some Dir then Inr f else Inl EEXIST))"
proof -
  have "mkdirp f [] (d @ [c]) = mkdirp f d [c]"
    using mkdirp_append [of f "[]" d "[c]"] assms by (simp add: dirs_above_snoc)
  then show ?thesis
    by (simp add: posix_mkdirSync_def split: option.splits node.splits)
qed

lemma write_target_entry:
  assumes "dirs_above f (d @ [c])"
  shows "write_target (Suc k) f (d @ [c]) =
           (case lookup f (d @ [c]) of
              None \<Rightarrow> Inr (d @ [c])
            | Some (File b) \<Rightarrow> Inr (d @ [c])
            | Some Dir \<Rightarrow> Inl EISDIR
            | Some (Link t) \<Rightarrow> write_target k f t)"
  using assms
  by (subst write_target.simps) (simp add: locate_entry split: option.splits node.splits)

lemma rmSync_entry:
  assumes "dirs_above f (d @ [c])"
  shows "posix_rmSync (d @ [c]) f = Inr (filter (\<lambda>e. \<not> prefix (d @ [c]) (fst e)) f)"
  using assms by (simp add: posix_rmSync_def locate_entry)

lemma ordered_mono: "ordered made cs \<Longrightarrow> set made \<subseteq> set made' \<Longrightarrow> ordered made' cs"
proof (induction made cs arbitrary: made' rule: ordered.induct)
  case (2 made p cs)
  then show ?case by (simp add: subset_insertI2)
qed auto

lemma ordered_append:
  "ordered made xs \<Longrightarrow> (\<And>made'. set made \<subseteq> set made' \<Longrightarrow> ordered made' ys) \<Longrightarrow>
   ordered made (xs @ ys)"
proof (induction made xs rule: ordered.induct)
  case (2 made p cs)
  then show ?case by (simp add: subset_insertI2)
qed auto

lemma outside_free:
  assumes "lookup f src = Some Dir" and "\<forall>q. lookup f (dest @ q) = None"
    and "\<not> prefix src dest"
  shows "\<not> prefix dest (src @ q)"
proof
  assume "prefix dest (src @ q)"
  moreover have "prefix src (src @ q)" by simp
  ultimately have "prefix dest src \<or> prefix src dest"
    by (rule prefix_same_cases)
  with assms(3) have "prefix dest src" by simp
  then obtain r where "src = dest @ r" by (auto simp: prefix_def)
  with assms(1,2) show False by simp
qed

lemma tree_at_below:
  assumes "tree_at f src n" and "lookup f (src @ q) \<noteq> Some Dir" and "r \<noteq> []"
  shows "lookup f (src @ q @ r) = None"
  using assms(3)
proof (induction r rule: rev_induct)
  case Nil
  then show ?case by simp
next
  case (snoc c r)
  show ?case
  proof (rule ccontr)
    assume "lookup f (src @ q @ r @ [c]) \<noteq> None"
    then have "lookup f (src @ butlast (q @ r @ [c])) = Some Dir"
      using assms(1) unfolding tree_at_def
      by (metis append_is_Nil_conv not_Cons_self2)
    then have parent: "lookup f (src @ q @ r) = Some Dir"
      by (simp add: butlast_append)
    show False
    proof (cases "r = []")
      case True
      with parent assms(2) show False by simp
    next
      case False
      with snoc.IH parent show False by simp
    qed
  qed
qed

lemma tree_at_child:
  assumes "tree_at f src (Suc n)" and "lookup f (src @ [x]) = Some Dir"
  shows "tree_at f (src @ [x]) n"
proof -
  have above: "dirs_above f (src @ [x])"
    using assms(1) by (simp add: tree_at_def dirs_above_snoc)
  have "no_link (lookup f ((src @ [x]) @ q)) \<and> (\<forall>c \<in> set q. simple_name c) \<and> length q < n
        \<and> (q \<noteq> [] \<longrightarrow> lookup f ((src @ [x]) @ butlast q) = Some Dir)"
    if "lookup f ((src @ [x]) @ q) \<noteq> None" for q
  proof -
    from that have "lookup f (src @ (x # q)) \<noteq> None" by simp
    then have "no_link (lookup f (src @ (x # q))) \<and> (\<forall>c \<in> set (x # q). simple_name c)
        \<and> length (x # q) < Suc n
        \<and> (x # q \<noteq> [] \<longrightarrow> lookup f (src @ butlast (x # q)) = Some Dir)"
      using assms(1) unfolding tree_at_def by blast
    then show ?thesis by (cases "q = []") simp_all
  qed
  with above assms(2) show ?thesis
    unfolding tree_at_def by blast
qed

lemma tree_at_cong:
  assumes "tree_at f src n" and "\<forall>q. lookup g (src @ q) = lookup f (src @ q)"
    and "\<forall>q. strict_prefix q src \<longrightarrow> lookup g q = lookup f q"
  shows "tree_at g src n"
proof -
  have "dirs_above g src"
    using assms(1,3) by (simp add: tree_at_def dirs_above_def)
  moreover have "lookup g src = Some Dir"
    using assms(1) assms(2) [rule_format, of "[]"] by (simp add: tree_at_def)
  ultimately show ?thesis
    using assms(1,2) unfolding tree_at_def by simp
qed

lemma tree_at_name:
  assumes "tree_at f src n" and "lookup f (src @ [x]) \<noteq> None"
  shows "simple_name x \<and> no_link (lookup f (src @ [x]))"
  using assms unfolding tree_at_def by (metis list.set_intros(1))

lemma copyRecursiveSync_Suc:
  "copyRecursiveSync (Suc depth) P src dest w =
     then_do (if \<not> existsSync P dest (fs w) then do_mkdir P dest w else Returns w)
       (\<lambda>w1. case readdirSync P src (fs w1) of
                Inl e \<Rightarrow> Throws e w1
              | Inr files \<Rightarrow> forEach (copy_entry depth P src dest) files w1)"
proof -
  have "copy_entry depth P src dest =
          (\<lambda>x w2.
             let srcPath = path_join src x;
                 destPath = path_join dest x
             in case statSync P srcPath (fs w2) of
                  Inl e \<Rightarrow> Throws e w2
                | Inr stat \<Rightarrow>
                    if stat = Directory
                    then copyRecursiveSync depth P srcPath destPath w2
                    else do_copyFile P srcPath destPath w2)"
    by (intro ext) (simp add: copy_entry_def)
  then show ?thesis by (simp only: copyRecursiveSync.simps)
qed

lemma do_mkdir_Returns:
  "mkdirSync P p (fs w) = Inr f \<Longrightarrow>
   do_mkdir P p w = Returns (w\<lparr>calls := calls w @ [MkdirSync p], fs := f\<rparr>)"
  by (simp add: do_mkdir_def Let_def)

lemma do_copyFile_Returns:
  "copyFileSync P a b (fs w) = Inr f \<Longrightarrow>
   do_copyFile P a b w = Returns (w\<lparr>calls := calls w @ [CopyFileSync a b], fs := f\<rparr>)"
  by (simp add: do_copyFile_def Let_def)

lemma copyFileSync_entry:
  assumes "dirs_above f (src @ [x])" and "lookup f (src @ [x]) = Some (File b)"
    and "dirs_above f (dest @ [x])" and "lookup f (dest @ [x]) = None"
    and "src \<noteq> dest"
  shows "posix_copyFileSync (src @ [x]) (dest @ [x]) f =
           Inr (AList.update (dest @ [x]) (File b) f)"
proof -
  have "realpath f (src @ [x]) = Some (src @ [x])"
    using assms(1,2) by (simp add: realpath_entry)
  moreover have "write_target 40 f (dest @ [x]) = Inr (dest @ [x])"
    using write_target_entry [OF assms(3), of 39] assms(4) by simp
  ultimately show ?thesis
    using assms(2,5) by (simp add: posix_copyFileSync_def)
qed

lemma prefix_snoc_same: "prefix (p @ [y]) (p @ x # r) \<Longrightarrow> y = x"
  by simp

lemma prefix_via: "prefix (p @ [y]) q \<Longrightarrow> prefix p q"
  using prefix_order.trans [of p "p @ [y]" q] by simp

lemma no_region: "\<not> prefix dest q \<Longrightarrow> \<not> (\<exists>y \<in> S. prefix (dest @ [y]) q)"
proof
  assume outside: "\<not> prefix dest q" and "\<exists>y \<in> S. prefix (dest @ [y]) q"
  then obtain y where "prefix (dest @ [y]) q" by blast
  then have "prefix dest q" by (rule prefix_via)
  with outside show False by simp
qed

lemma not_prefix_children:
  assumes "\<not> prefix src dest"
  shows "\<not> prefix (src @ [x]) (dest @ [y])"
proof
  assume "prefix (src @ [x]) (dest @ [y])"
  then obtain r where r: "dest @ [y] = (src @ [x]) @ r" by (auto simp: prefix_def)
  show False
  proof (cases r rule: rev_cases)
    case Nil
    with r have "dest = src" by simp
    with assms show False by simp
  next
    case (snoc r' z)
    with r have "dest = src @ [x] @ r'" by simp
    with assms show False by simp
  qed
qed

lemma copy_tree:
  fixes w :: "filesystem world"
  assumes "tree_at (fs w) src n" and "free_at (fs w) dest" and "\<not> prefix src dest"
  shows "\<exists>w'. copyRecursiveSync n (posix d l pr sp) src dest w = Returns w'
            \<and> copied (fs w) src dest (fs w')
            \<and> (\<exists>cs. calls w' = calls w @ cs \<and> (\<forall>made. ordered made cs))"
  using assms
proof (induction n arbitrary: src dest w)
  case 0
  then have "lookup (fs w) (src @ []) \<noteq> None \<longrightarrow> length ([] :: path) < 0"
    unfolding tree_at_def by blast
  with 0 show ?case by (simp add: tree_at_def)
next
  case (Suc n)
  define f where "f = fs w"
  define PX where "PX = posix d l pr sp"
  have tree: "tree_at f src (Suc n)" and free: "free_at f dest" and disj: "\<not> prefix src dest"
    using Suc.prems by (simp_all add: f_def)
  have srcdir: "lookup f src = Some Dir" and above_src: "dirs_above f src"
    using tree by (simp_all add: tree_at_def)
  have dest_ne: "dest \<noteq> []" and above_dest: "dirs_above f dest"
    and vacant: "lookup f (dest @ q) = None" for q
    using free by (simp_all add: free_at_def)
  obtain dd c where dest: "dest = dd @ [c]"
    using dest_ne by (metis rev_exhaust)
  have out: "\<not> prefix dest (src @ q)" for q
    using outside_free [OF srcdir _ disj] vacant by blast
  have out_above: "\<not> prefix dest q" if "prefix q src" for q
  proof
    assume "prefix dest q"
    then have "prefix dest src" using that by (rule prefix_order.trans)
    with out [of "[]"] show False by simp
  qed
  \<comment> \<open>the destination is created\<close>
  have absent: "\<not> posix_existsSync dest f"
    using existsSync_entry [of f dd c] above_dest vacant [of "[]"] by (simp add: dest)
  have mk: "posix_mkdirSync dest f = Inr (AList.update dest Dir f)"
    using mkdirSync_entry [of f dd c] above_dest vacant [of "[]"] by (simp add: dest)
  define f1 where "f1 = AList.update dest Dir f"
  define w1 where "w1 = w\<lparr>calls := calls w @ [MkdirSync dest], fs := f1\<rparr>"
  have l1: "lookup f1 q = (if q = dest then Some Dir else lookup f q)" for q
    unfolding f1_def using dest_ne by (rule lookup_update)
  have first: "(if \<not> existsSync PX dest (fs w) then do_mkdir PX dest w else Returns w) =
                 Returns w1"
    using absent mk by (simp add: PX_def f_def [symmetric] w1_def f1_def do_mkdir_Returns)
  have out1: "lookup f1 q = lookup f q" if "\<not> prefix dest q" for q
    using that l1 [of q] by auto
  have "dirs_above f1 src"
    unfolding dirs_above_def
  proof (intro allI impI)
    fix q assume q: "strict_prefix q src"
    then have "\<not> prefix dest q" by (intro out_above) (simp add: strict_prefix_def)
    with q above_src show "lookup f1 q = Some Dir"
      by (simp add: out1 dirs_above_def)
  qed
  moreover have "lookup f1 src = Some Dir"
    using out [of "[]"] srcdir by (simp add: out1)
  ultimately have rd: "posix_readdirSync src f1 = Inr (children f1 src)"
    by (rule readdirSync_dir)
  define files where "files = children f1 src"
  have files_distinct: "distinct files"
    by (simp add: files_def distinct_children)
  have src1: "lookup f1 (src @ q) = lookup f (src @ q)" for q
    using out by (rule out1)
  have files_set: "set files = {x. lookup f (src @ [x]) \<noteq> None}"
    by (simp add: files_def set_children src1)
  \<comment> \<open>the loop over the entries\<close>
  have loop: "\<exists>w'. forEach (copy_entry n PX src dest) xs wc = Returns w'
        \<and> (\<forall>q. lookup (fs w') q =
                 (if \<exists>x \<in> seen \<union> set xs. prefix (dest @ [x]) q
                  then lookup f (src @ drop (length dest) q) else lookup f1 q))
        \<and> (\<exists>cs. calls w' = calls wc @ cs \<and> (\<forall>made. dest \<in> set made \<longrightarrow> ordered made cs))"
    if "distinct xs" and "set xs \<subseteq> {x. lookup f (src @ [x]) \<noteq> None}" and "seen \<inter> set xs = {}"
      and "\<forall>q. lookup (fs wc) q =
                 (if \<exists>x \<in> seen. prefix (dest @ [x]) q
                  then lookup f (src @ drop (length dest) q) else lookup f1 q)"
    for xs seen and wc :: "filesystem world"
    using that
  proof (induction xs arbitrary: seen wc)
    case Nil
    then show ?case by simp
  next
    case (Cons x xs)
    define fc where "fc = fs wc"
    have J: "lookup fc q =
                 (if \<exists>y \<in> seen. prefix (dest @ [y]) q
                  then lookup f (src @ drop (length dest) q) else lookup f1 q)" for q
      using Cons.prems(4) by (simp add: fc_def)
    have x: "lookup f (src @ [x]) \<noteq> None" and x_new: "x \<notin> seen" and x_once: "x \<notin> set xs"
      using Cons.prems(1,2,3) by auto
    have name: "simple_name x" and plain: "no_link (lookup f (src @ [x]))"
      using tree_at_name [OF tree x] by simp_all
    have joins: "path_join src x = src @ [x]" "path_join dest x = dest @ [x]"
      by (rule path_join_simple [OF name])+
    have outc: "lookup fc q = lookup f q" if "\<not> prefix dest q" for q
    proof -
      have "\<not> (\<exists>y \<in> seen. prefix (dest @ [y]) q)"
        using that by (rule no_region)
      then show ?thesis using that by (simp add: J out1)
    qed
    have srcc: "lookup fc (src @ q) = lookup f (src @ q)" for q
      using out by (rule outc)
    have abovec: "lookup fc q = lookup f q" if "prefix q src" for q
      using out_above [OF that] by (rule outc)
    have "dirs_above fc src"
      unfolding dirs_above_def
    proof (intro allI impI)
      fix q assume "strict_prefix q src"
      then show "lookup fc q = Some Dir"
        using above_src by (simp add: abovec dirs_above_def strict_prefix_def)
    qed
    moreover have "lookup fc src = Some Dir"
      using srcdir by (simp add: abovec)
    ultimately have above_srcc: "dirs_above fc (src @ [x])"
      by (simp add: dirs_above_snoc)
    have destc: "lookup fc dest = Some Dir"
    proof -
      have "\<not> (\<exists>y \<in> seen. prefix (dest @ [y]) dest)" by simp
      then show ?thesis by (simp add: J l1)
    qed
    have "dirs_above fc dest"
      unfolding dirs_above_def
    proof (intro allI impI)
      fix q assume q: "strict_prefix q dest"
      then have "\<not> prefix dest q"
        by (auto simp: strict_prefix_def dest: prefix_order.antisym)
      then have "lookup fc q = lookup f q" by (rule outc)
      with q above_dest show "lookup fc q = Some Dir"
        by (simp add: dirs_above_def)
    qed
    then have above_destc: "dirs_above fc (dest @ [x])"
      using destc by (simp add: dirs_above_snoc)
    have freec: "lookup fc (dest @ [x] @ r) = None" for r
    proof -
      have "\<not> (\<exists>y \<in> seen. prefix (dest @ [y]) (dest @ [x] @ r))"
        using x_new by auto
      moreover have "dest @ [x] @ r \<noteq> dest" by simp
      ultimately show ?thesis
        using vacant [of "[x] @ r"] by (simp add: J l1 del: append.simps)
    qed
    have step: "\<exists>w2. copy_entry n PX src dest x wc = Returns w2
          \<and> (\<forall>q. lookup (fs w2) q =
                 (if prefix (dest @ [x]) q then lookup f (src @ drop (length dest) q)
                  else lookup fc q))
          \<and> (\<exists>cs. calls w2 = calls wc @ cs \<and> (\<forall>made. dest \<in> set made \<longrightarrow> ordered made cs))"
    proof (cases "lookup f (src @ [x]) = Some Dir")
      case True
      have "posix_statSync (src @ [x]) fc = Inr Directory"
        using statSync_entry [OF above_srcc, of Dir] True by (simp add: srcc)
      then have call: "copy_entry n PX src dest x wc =
                   copyRecursiveSync n PX (src @ [x]) (dest @ [x]) wc"
        by (simp add: copy_entry_def joins PX_def fc_def)
      have "tree_at f (src @ [x]) n"
        using tree True by (rule tree_at_child)
      then have t: "tree_at (fs wc) (src @ [x]) n"
      proof (rule tree_at_cong)
        show "\<forall>q. lookup (fs wc) ((src @ [x]) @ q) = lookup f ((src @ [x]) @ q)"
          using srcc [of "[x] @ q" for q] by (simp add: fc_def)
        show "\<forall>q. strict_prefix q (src @ [x]) \<longrightarrow> lookup (fs wc) q = lookup f q"
          using abovec by (simp add: fc_def strict_prefix_snoc_iff)
      qed
      have fr: "free_at (fs wc) (dest @ [x])"
        using above_destc freec by (simp add: free_at_def fc_def)
      have dj: "\<not> prefix (src @ [x]) (dest @ [x])"
        using disj by (rule not_prefix_children)
      from Suc.IH [OF t fr dj]
      obtain w2 cs where w2: "copyRecursiveSync n PX (src @ [x]) (dest @ [x]) wc = Returns w2"
        and cp: "copied fc (src @ [x]) (dest @ [x]) (fs w2)"
        and cs: "calls w2 = calls wc @ cs" "\<forall>made. ordered made cs"
        unfolding PX_def fc_def by blast
      have "lookup (fs w2) q =
                 (if prefix (dest @ [x]) q then lookup f (src @ drop (length dest) q)
                  else lookup fc q)" for q
      proof (cases "prefix (dest @ [x]) q")
        case False
        then show ?thesis using cp by (simp add: copied_def)
      next
        case True
        then obtain r where q: "q = dest @ [x] @ r" by (auto simp: prefix_def)
        have "lookup (fs w2) q = lookup fc (src @ [x] @ r)"
          using cp by (simp add: copied_def q)
        also have "\<dots> = lookup f (src @ [x] @ r)" by (rule srcc)
        finally show ?thesis using True by (simp add: q)
      qed
      with call w2 cs show ?thesis by auto
    next
      case False
      with x plain obtain b where b: "lookup f (src @ [x]) = Some (File b)"
        by (cases "lookup f (src @ [x])"; cases "the (lookup f (src @ [x]))")
           (auto simp: no_link_def)
      have "posix_statSync (src @ [x]) fc = Inr RegularFile"
        using statSync_entry [OF above_srcc, of "File b"] b by (simp add: srcc)
      then have call: "copy_entry n PX src dest x wc =
                   do_copyFile PX (src @ [x]) (dest @ [x]) wc"
        by (simp add: copy_entry_def joins PX_def fc_def)
      have "src \<noteq> dest" using disj by auto
      then have "posix_copyFileSync (src @ [x]) (dest @ [x]) fc =
                   Inr (AList.update (dest @ [x]) (File b) fc)"
        using above_srcc above_destc freec [of "[]"] b
        by (intro copyFileSync_entry) (simp_all add: srcc)
      then have written: "do_copyFile PX (src @ [x]) (dest @ [x]) wc =
                   Returns (wc\<lparr>calls := calls wc @ [CopyFileSync (src @ [x]) (dest @ [x])],
                              fs := AList.update (dest @ [x]) (File b) fc\<rparr>)"
        by (simp add: do_copyFile_Returns PX_def fc_def)
      have "lookup (AList.update (dest @ [x]) (File b) fc) q =
                 (if prefix (dest @ [x]) q then lookup f (src @ drop (length dest) q)
                  else lookup fc q)" for q
      proof (cases "prefix (dest @ [x]) q")
        case False
        then have "q \<noteq> dest @ [x]" by auto
        with False show ?thesis by (simp add: lookup_update)
      next
        case True
        then obtain r where q: "q = dest @ [x] @ r" by (auto simp: prefix_def)
        show ?thesis
        proof (cases "r = []")
          case True
          then show ?thesis by (simp add: q lookup_update b)
        next
          case False
          have "lookup f (src @ [x] @ r) = None"
            using tree_at_below [OF tree _ False, of "[x]"] b by simp
          moreover have "lookup fc q = None"
            unfolding q by (rule freec)
          ultimately show ?thesis
            using False by (simp add: q lookup_update)
        qed
      qed
      with call written show ?thesis by auto
    qed
    then obtain w2 cs where w2: "copy_entry n PX src dest x wc = Returns w2"
      and l2: "\<And>q. lookup (fs w2) q =
                 (if prefix (dest @ [x]) q then lookup f (src @ drop (length dest) q)
                  else lookup fc q)"
      and cs: "calls w2 = calls wc @ cs" "\<forall>made. dest \<in> set made \<longrightarrow> ordered made cs"
      by blast
    have J2: "\<forall>q. lookup (fs w2) q =
                 (if \<exists>y \<in> insert x seen. prefix (dest @ [y]) q
                  then lookup f (src @ drop (length dest) q) else lookup f1 q)"
      by (auto simp: l2 J)
    have "\<exists>w'. forEach (copy_entry n PX src dest) xs w2 = Returns w'
        \<and> (\<forall>q. lookup (fs w') q =
                 (if \<exists>y \<in> insert x seen \<union> set xs. prefix (dest @ [y]) q
                  then lookup f (src @ drop (length dest) q) else lookup f1 q))
        \<and> (\<exists>cs. calls w' = calls w2 @ cs \<and> (\<forall>made. dest \<in> set made \<longrightarrow> ordered made cs))"
      using Cons.prems(1,2,3) J2 by (intro Cons.IH) auto
    then obtain w' cs' where w': "forEach (copy_entry n PX src dest) xs w2 = Returns w'"
      and l': "\<forall>q. lookup (fs w') q =
                 (if \<exists>y \<in> insert x seen \<union> set xs. prefix (dest @ [y]) q
                  then lookup f (src @ drop (length dest) q) else lookup f1 q)"
      and cs': "calls w' = calls w2 @ cs'" "\<forall>made. dest \<in> set made \<longrightarrow> ordered made cs'"
      by blast
    have "\<forall>made. dest \<in> set made \<longrightarrow> ordered made (cs @ cs')"
      using cs(2) cs'(2) by (auto intro!: ordered_append)
    with w2 w' l' cs(1) cs'(1) show ?case by auto
  qed
  have "\<exists>w'. forEach (copy_entry n PX src dest) files w1 = Returns w'
        \<and> (\<forall>q. lookup (fs w') q =
                 (if \<exists>x \<in> {} \<union> set files. prefix (dest @ [x]) q
                  then lookup f (src @ drop (length dest) q) else lookup f1 q))
        \<and> (\<exists>cs. calls w' = calls w1 @ cs \<and> (\<forall>made. dest \<in> set made \<longrightarrow> ordered made cs))"
    using files_distinct files_set by (intro loop) (simp_all add: w1_def)
  then obtain w' cs where w': "forEach (copy_entry n PX src dest) files w1 = Returns w'"
    and l': "\<And>q. lookup (fs w') q =
                 (if \<exists>x \<in> set files. prefix (dest @ [x]) q
                  then lookup f (src @ drop (length dest) q) else lookup f1 q)"
    and cs: "calls w' = calls w1 @ cs" "\<forall>made. dest \<in> set made \<longrightarrow> ordered made cs"
    by auto
  have run: "copyRecursiveSync (Suc n) PX src dest w = Returns w'"
    using first rd w' unfolding copyRecursiveSync_Suc
    by (simp add: PX_def w1_def files_def)
  have "lookup (fs w') q =
          (if prefix dest q then lookup f (src @ drop (length dest) q) else lookup f q)" for q
  proof (cases "prefix dest q")
    case False
    then have "\<not> (\<exists>x \<in> set files. prefix (dest @ [x]) q)"
      by (rule no_region)
    with False show ?thesis by (simp add: l' out1)
  next
    case True
    then obtain r where q: "q = dest @ r" by (auto simp: prefix_def)
    show ?thesis
    proof (cases r)
      case Nil
      then show ?thesis using srcdir by (simp add: q l' l1)
    next
      case (Cons x r')
      show ?thesis
      proof (cases "x \<in> set files")
        case True
        then have "\<exists>y \<in> set files. prefix (dest @ [y]) q"
          by (auto simp: q Cons)
        then show ?thesis by (simp add: l' q)
      next
        case False
        then have none: "lookup f (src @ [x]) = None"
          by (simp add: files_set)
        have "lookup f (src @ x # r') = None"
        proof (cases "r' = []")
          case True
          with none show ?thesis by simp
        next
          case False
          then show ?thesis
            using tree_at_below [OF tree _ False, of "[x]"] none by simp
        qed
        moreover have "\<not> (\<exists>y \<in> set files. prefix (dest @ [y]) q)"
          using False by (auto simp: q Cons)
        moreover have "lookup f1 q = None"
          using vacant [of r] by (simp add: l1 q Cons)
        ultimately show ?thesis by (simp add: l' q Cons)
      qed
    qed
  qed
  then have "copied (fs w) src dest (fs w')"
    by (simp add: copied_def f_def)
  moreover have "calls w' = calls w @ MkdirSync dest # cs"
    using cs(1) by (simp add: w1_def)
  moreover have "\<forall>made. ordered made (MkdirSync dest # cs)"
    using cs(2) by simp
  ultimately show ?case
    using run unfolding PX_def by blast
qed

lemma strict_prefix_take: "strict_prefix q p \<Longrightarrow> q = take (length q) p \<and> length q < length p"
  by (auto simp: strict_prefix_def prefix_def)

lemma dirs_aboveI:
  assumes "list_all (\<lambda>i. lookup f (take i p) = Some Dir) [0..<length p]"
  shows "dirs_above f p"
  unfolding dirs_above_def
proof (intro allI impI)
  fix q assume "strict_prefix q p"
  then have q: "q = take (length q) p" "length q < length p"
    using strict_prefix_take by blast+
  from assms q(2) have "lookup f (take (length q) p) = Some Dir"
    by (simp add: list_all_iff)
  with q(1) show "lookup f q = Some Dir" by simp
qed

lemma tree_atI:
  assumes "0 < n" and "dirs_above f src" and "lookup f src = Some Dir"
    and "list_all (\<lambda>e. prefix src (fst e) \<longrightarrow>
                       no_link (lookup f (fst e))
                       \<and> list_all simple_name (drop (length src) (fst e))
                       \<and> length (fst e) < length src + n
                       \<and> (fst e \<noteq> src \<longrightarrow> lookup f (butlast (fst e)) = Some Dir)) f"
  shows "tree_at f src n"
proof -
  have "no_link (lookup f (src @ q)) \<and> (\<forall>c \<in> set q. simple_name c) \<and> length q < n
        \<and> (q \<noteq> [] \<longrightarrow> lookup f (src @ butlast q) = Some Dir)"
    if "lookup f (src @ q) \<noteq> None" for q
  proof (cases "src @ q = []")
    case True
    then show ?thesis using assms(1) by (simp add: no_link_def)
  next
    case False
    from that obtain v where "lookup f (src @ q) = Some v" by auto
    then have "(src @ q, v) \<in> set f"
      using False by (rule lookup_Some_key)
    with assms(4) have "no_link (lookup f (src @ q))
                       \<and> list_all simple_name (drop (length src) (src @ q))
                       \<and> length (src @ q) < length src + n
                       \<and> (src @ q \<noteq> src \<longrightarrow> lookup f (butlast (src @ q)) = Some Dir)"
      by (auto simp: list_all_iff)
    then show ?thesis
      by (auto simp: list_all_iff butlast_append)
  qed
  with assms(2,3) show ?thesis
    unfolding tree_at_def by blast
qed

lemma free_atI:
  assumes "dest \<noteq> []" and "dirs_above f dest" and "list_all (\<lambda>e. \<not> prefix dest (fst e)) f"
  shows "free_at f dest"
proof -
  have "lookup f (dest @ q) = None" for q
  proof (rule ccontr)
    assume "lookup f (dest @ q) \<noteq> None"
    then obtain v where "lookup f (dest @ q) = Some v" by auto
    then have "(dest @ q, v) \<in> set f"
      using assms(1) by (intro lookup_Some_key) simp_all
    with assms(3) have "\<not> prefix dest (dest @ q)"
      by (auto simp: list_all_iff)
    then show False by simp
  qed
  with assms(1,2) show ?thesis by (simp add: free_at_def)
qed

lemma copier_first_call:
  assumes "\<not> existsSync P dest (fs w)"
  shows "\<exists>cs. issued w (copyRecursiveSync (Suc depth) P src dest w) = MkdirSync dest # cs"
proof -
  let ?rest = "\<lambda>w1. case readdirSync P src (fs w1) of
                Inl e \<Rightarrow> Throws e w1
              | Inr files \<Rightarrow> forEach (copy_entry depth P src dest) files w1"
  let ?R = "\<lambda>a b :: 'a world. prefix (calls a) (calls b)"
  have mk: "calls (world_of (do_mkdir P dest w)) = calls w @ [MkdirSync dest]"
    using do_mkdir_world [of P dest w] by simp
  have "?R (world_of (do_mkdir P dest w)) (world_of (then_do (do_mkdir P dest w) ?rest))"
  proof (cases "do_mkdir P dest w")
    case (Throws e w1)
    then show ?thesis by simp
  next
    case (Returns w1)
    have "copier_step w1 (world_of (?rest w1))"
    proof (cases "readdirSync P src (fs w1)")
      case (Inl e)
      then show ?thesis by (simp add: copier_step_refl)
    next
      case (Inr files)
      have "copier_step w1 (world_of (forEach (copy_entry depth P src dest) files w1))"
      proof (rule forEach_rel [where R = copier_step])
        fix x and w2 :: "'a world"
        show "copier_step w2 (world_of (copy_entry depth P src dest x w2))"
          using copyRecursiveSync_step [of w2 depth P "path_join src x" "path_join dest x"]
            do_copyFile_world [of P "path_join src x" "path_join dest x" w2]
          by (auto simp: copy_entry_def Let_def copier_step_def split: sum.splits)
      qed (auto intro: copier_step_refl copier_step_trans)
      with Inr show ?thesis by simp
    qed
    with Returns show ?thesis by (simp add: copier_step_def)
  qed
  then obtain cs where "calls (world_of (then_do (do_mkdir P dest w) ?rest)) =
      (calls w @ [MkdirSync dest]) @ cs"
    using mk by (auto simp: prefix_def)
  then show ?thesis
    using assms by (simp only: copyRecursiveSync_Suc issued_def if_True append_assoc)
      (simp add: issued_def)
qed




subsection \<open>Two runs in succession\<close>

lemma same_outside_refl: "same_outside D f f"
  by (simp add: same_outside_def)

lemma same_outside_trans: "same_outside D f g \<Longrightarrow> same_outside D g h \<Longrightarrow> same_outside D f h"
  by (simp add: same_outside_def)

lemma strict_prefix_outside: "strict_prefix q D \<Longrightarrow> \<not> prefix D q"
  by (auto simp: strict_prefix_def dest: prefix_order.antisym)

lemma dirs_above_same:
  assumes "dirs_above f D" and "same_outside D f g"
  shows "dirs_above g D"
  using assms strict_prefix_outside
  unfolding dirs_above_def same_outside_def by metis

text \<open>Walking below such a place follows no link: it ends at the path walked or nowhere.\<close>

lemma walk_link_free:
  assumes "\<forall>i < length cs. \<forall>t. lookup f (cur @ take (Suc i) cs) \<noteq> Some (Link t)"
  shows "walk k f cur cs = None \<or> walk k f cur cs = Some (cur @ cs)"
  using assms
proof (induction cs arbitrary: cur)
  case Nil
  then show ?case by simp
next
  case (Cons c cs)
  have head: "\<forall>t. lookup f (cur @ [c]) \<noteq> Some (Link t)"
    using Cons.prems by (auto dest: spec [of _ 0])
  have rest: "\<forall>i < length cs. \<forall>t. lookup f ((cur @ [c]) @ take (Suc i) cs) \<noteq> Some (Link t)"
  proof (intro allI impI)
    fix i t assume "i < length cs"
    then have "lookup f (cur @ take (Suc (Suc i)) (c # cs)) \<noteq> Some (Link t)"
      using Cons.prems by (auto dest: spec [of _ "Suc i"])
    then show "lookup f ((cur @ [c]) @ take (Suc i) cs) \<noteq> Some (Link t)" by simp
  qed
  show ?case
  proof (cases "lookup f (cur @ [c])")
    case None
    then show ?thesis by simp
  next
    case (Some n)
    show ?thesis
    proof (cases n)
      case (File b)
      with Some show ?thesis by simp
    next
      case Dir
      with Some Cons.IH [OF rest] show ?thesis by simp
    next
      case (Link t)
      with Some head show ?thesis by simp
    qed
  qed
qed

lemma realpath_good:
  assumes "good D f" and "prefix D p"
  shows "realpath f p = None \<or> realpath f p = Some p"
proof -
  obtain D0 c where D: "D = D0 @ [c]"
    using assms(1) by (metis good_def rev_exhaust)
  obtain r where p: "p = D0 @ (c # r)"
    using assms(2) by (auto simp: prefix_def D)
  have above: "dirs_above f D0" "lookup f D0 = Some Dir"
    using assms(1) by (simp_all add: good_def D dirs_above_snoc)
  have "\<forall>i < length (c # r). \<forall>t. lookup f (D0 @ take (Suc i) (c # r)) \<noteq> Some (Link t)"
  proof (intro allI impI)
    fix i t assume "i < length (c # r)"
    have "prefix D (D0 @ take (Suc i) (c # r))"
      by (simp add: D)
    then show "lookup f (D0 @ take (Suc i) (c # r)) \<noteq> Some (Link t)"
      using assms(1) unfolding good_def link_free_def by blast
  qed
  then have "walk 40 f D0 (c # r) = None \<or> walk 40 f D0 (c # r) = Some (D0 @ (c # r))"
    by (rule walk_link_free)
  moreover have "walk 40 f [] (D0 @ (c # r)) = walk 40 f D0 (c # r)"
    using walk_append [of f "[]" D0 40 "c # r"] above by simp
  ultimately show ?thesis
    by (simp add: realpath_def p)
qed

lemma locate_good:
  assumes "good D f" and "prefix D p"
  shows "locate f p = None \<or> locate f p = Some p"
proof (cases "p = D")
  case True
  obtain D0 c where D: "D = D0 @ [c]"
    using assms(1) by (metis good_def rev_exhaust)
  have "dirs_above f (D0 @ [c])"
    using assms(1) by (simp add: good_def D)
  then show ?thesis
    using locate_entry [of f D0 c] by (simp add: True D)
next
  case False
  then obtain r x where p: "p = D @ r @ [x]"
    using assms(2) by (metis append_Nil2 prefixE rev_exhaust)
  have "realpath f (D @ r) = None \<or> realpath f (D @ r) = Some (D @ r)"
    using assms(1) by (rule realpath_good) simp
  then show ?thesis
    by (auto simp: locate_def p butlast_append)
qed

lemma good_update:
  assumes "good D f" and "prefix D k" and "\<forall>x \<in> set k. simple_name x" and "\<forall>t. n \<noteq> Link t"
  shows "good D (AList.update k n f) \<and> same_outside D f (AList.update k n f)"
proof -
  have k: "k \<noteq> []"
    using assms(1,2) by (auto simp: good_def)
  have l: "lookup (AList.update k n f) q = (if q = k then Some n else lookup f q)" for q
    using k by (rule lookup_update)
  have same: "same_outside D f (AList.update k n f)"
    using assms(2) by (auto simp: same_outside_def l)
  have "dirs_above (AList.update k n f) D"
    using assms(1) same by (auto simp: good_def intro: dirs_above_same)
  moreover have "names_ok (AList.update k n f)"
    using assms(1,3) by (auto simp: good_def names_ok_def l)
  moreover have "link_free (AList.update k n f) D"
    using assms(1,4) by (auto simp: good_def link_free_def l)
  ultimately show ?thesis
    using assms(1) same by (simp add: good_def)
qed

lemma mkdirp_good:
  assumes "good D f" and "cs = [] \<or> prefix D (cur @ [hd cs])"
    and "\<forall>x \<in> set (cur @ cs). simple_name x"
  shows "case mkdirp f cur cs of Inl e \<Rightarrow> True | Inr f' \<Rightarrow> good D f' \<and> same_outside D f f'"
  using assms
proof (induction cs arbitrary: f cur)
  case Nil
  then show ?case by (simp add: same_outside_refl)
next
  case (Cons c cs)
  have region: "prefix D (cur @ [c])"
    using Cons.prems(2) by simp
  have next_region: "cs = [] \<or> prefix D ((cur @ [c]) @ [hd cs])"
    using region by (metis prefix_order.trans prefixI)
  have names: "\<forall>x \<in> set ((cur @ [c]) @ cs). simple_name x"
    using Cons.prems(3) by simp
  show ?case
  proof (cases "lookup f (cur @ [c])")
    case None
    have g: "good D (AList.update (cur @ [c]) Dir f)
             \<and> same_outside D f (AList.update (cur @ [c]) Dir f)"
      using Cons.prems(1) region Cons.prems(3) by (intro good_update) simp_all
    then have "case mkdirp (AList.update (cur @ [c]) Dir f) (cur @ [c]) cs of
                 Inl e \<Rightarrow> True
               | Inr f' \<Rightarrow> good D f' \<and> same_outside D (AList.update (cur @ [c]) Dir f) f'"
      using next_region names by (intro Cons.IH) simp_all
    with g None show ?thesis
      by (auto split: sum.splits intro: same_outside_trans)
  next
    case (Some n)
    show ?thesis
    proof (cases n)
      case (File b)
      with Some show ?thesis by simp
    next
      case Dir
      with Some Cons.IH [OF Cons.prems(1) next_region names] show ?thesis by simp
    next
      case (Link t)
      with Some region Cons.prems(1) show ?thesis
        by (auto simp: good_def link_free_def)
    qed
  qed
qed

lemma mkdirSync_good:
  assumes "good D f" and "prefix D p" and "\<forall>x \<in> set p. simple_name x"
  shows "case posix_mkdirSync p f of Inl e \<Rightarrow> True | Inr f' \<Rightarrow> good D f' \<and> same_outside D f f'"
proof -
  obtain D0 c where D: "D = D0 @ [c]"
    using assms(1) by (metis good_def rev_exhaust)
  obtain r where p: "p = D0 @ (c # r)"
    using assms(2) by (auto simp: prefix_def D)
  have above: "dirs_above f D0" "lookup f D0 = Some Dir"
    using assms(1) by (simp_all add: good_def D dirs_above_snoc)
  have "mkdirp f [] (D0 @ (c # r)) = mkdirp f D0 (c # r)"
    using mkdirp_append [of f "[]" D0 "c # r"] above by simp
  moreover have "case mkdirp f D0 (c # r) of
                   Inl e \<Rightarrow> True | Inr f' \<Rightarrow> good D f' \<and> same_outside D f f'"
    using assms(1,3) by (intro mkdirp_good) (simp_all add: D p)
  ultimately show ?thesis
    by (simp add: posix_mkdirSync_def p)
qed

lemma write_target_good:
  assumes "good D f" and "prefix D p" and "write_target (Suc k) f p = Inr t"
  shows "t = p"
proof -
  have "locate f p = None \<or> locate f p = Some p"
    using assms(1,2) by (rule locate_good)
  moreover have "\<forall>t. lookup f p \<noteq> Some (Link t)"
    using assms(1,2) by (simp add: good_def link_free_def)
  ultimately show ?thesis
    using assms(3)
    by (subst (asm) write_target.simps) (auto split: option.splits node.splits)
qed

lemma copyFileSync_good:
  assumes "good D f" and "prefix D p" and "\<forall>x \<in> set p. simple_name x"
  shows "case posix_copyFileSync a p f of
           Inl e \<Rightarrow> True | Inr f' \<Rightarrow> good D f' \<and> same_outside D f f'"
proof (cases "posix_copyFileSync a p f")
  case (Inl e)
  then show ?thesis by simp
next
  case (Inr f')
  then obtain q where q: "realpath f a = Some q"
    by (cases "realpath f a") (simp_all add: posix_copyFileSync_def)
  with Inr obtain bytes where bytes: "lookup f q = Some (File bytes)"
    by (cases "lookup f q"; cases "the (lookup f q)") (simp_all add: posix_copyFileSync_def)
  with Inr q obtain t where t: "write_target 40 f p = Inr t"
    by (cases "write_target 40 f p") (simp_all add: posix_copyFileSync_def)
  then have "t = p"
    using write_target_good [OF assms(1,2), of 39 t] by simp
  with Inr q bytes t have "f' = f \<or> f' = AList.update p (File bytes) f"
    by (auto simp: posix_copyFileSync_def split: if_splits)
  with assms good_update [of D f p "File bytes"] Inr show ?thesis
    by (auto simp: same_outside_refl)
qed

lemma forEach_inv:
  assumes "I w" and "\<And>x w. x \<in> set xs \<Longrightarrow> I w \<Longrightarrow> I (world_of (f x w))"
  shows "I (world_of (forEach f xs w))"
  using assms
proof (induction xs arbitrary: w)
  case Nil
  then show ?case by simp
next
  case (Cons x xs)
  have step: "I (world_of (f x w))"
    using Cons.prems by simp
  show ?case
  proof (cases "f x w")
    case (Returns w')
    with step have "I w'" by simp
    then have "I (world_of (forEach f xs w'))"
      using Cons.prems(2) by (intro Cons.IH) simp_all
    with Returns show ?thesis by simp
  next
    case (Throws e w')
    with step show ?thesis by simp
  qed
qed

lemma readdirSync_names:
  assumes "posix_readdirSync p f = Inr files" and "names_ok f" and "x \<in> set files"
  shows "simple_name x"
proof -
  from assms(1) obtain q where "files = children f q"
    by (auto simp: posix_readdirSync_def split: option.splits if_splits)
  with assms(3) have "lookup f (q @ [x]) \<noteq> None"
    by (simp add: set_children)
  with assms(2) show ?thesis
    unfolding names_ok_def by (metis in_set_conv_decomp)
qed

lemma do_mkdir_good:
  fixes w :: "filesystem world"
  assumes "good D (fs w)" and "prefix D p" and "\<forall>x \<in> set p. simple_name x"
  shows "good D (fs (world_of (do_mkdir (posix d l pr sp) p w)))
         \<and> same_outside D (fs w) (fs (world_of (do_mkdir (posix d l pr sp) p w)))"
  using mkdirSync_good [OF assms] assms(1)
  by (cases "posix_mkdirSync p (fs w)") (simp_all add: do_mkdir_def Let_def same_outside_refl)

lemma do_copyFile_good:
  fixes w :: "filesystem world"
  assumes "good D (fs w)" and "prefix D p" and "\<forall>x \<in> set p. simple_name x"
  shows "good D (fs (world_of (do_copyFile (posix d l pr sp) a p w)))
         \<and> same_outside D (fs w) (fs (world_of (do_copyFile (posix d l pr sp) a p w)))"
  using copyFileSync_good [OF assms, of a] assms(1)
  by (cases "posix_copyFileSync a p (fs w)")
     (simp_all add: do_copyFile_def Let_def same_outside_refl)

lemma copy_frame:
  fixes w :: "filesystem world"
  assumes "good D (fs w)" and "prefix D dest" and "\<forall>x \<in> set dest. simple_name x"
  shows "good D (fs (world_of (copyRecursiveSync n (posix d l pr sp) src dest w)))
         \<and> same_outside D (fs w) (fs (world_of (copyRecursiveSync n (posix d l pr sp) src dest w)))"
  using assms
proof (induction n arbitrary: src dest w)
  case 0
  then show ?case by (simp add: same_outside_refl)
next
  case (Suc n)
  define PX where "PX = posix d l pr sp"
  let ?I = "\<lambda>v :: filesystem world. good D (fs v) \<and> same_outside D (fs w) (fs v)"
  define first where
    "first = (if \<not> existsSync PX dest (fs w) then do_mkdir PX dest w else Returns w)"
  define rest where
    "rest = (\<lambda>w1. case readdirSync PX src (fs w1) of
                Inl e \<Rightarrow> Throws e w1
              | Inr files \<Rightarrow> forEach (copy_entry n PX src dest) files w1)"
  have run: "copyRecursiveSync (Suc n) PX src dest w = then_do first rest"
    by (simp only: copyRecursiveSync_Suc first_def rest_def)
  have a: "?I (world_of first)"
    using do_mkdir_good [OF Suc.prems, of d l pr sp] Suc.prems(1)
    by (simp add: first_def PX_def same_outside_refl)
  have b: "?I (world_of (rest w1))" if w1: "?I w1" for w1
  proof (cases "readdirSync PX src (fs w1)")
    case (Inl e)
    with w1 show ?thesis by (simp add: rest_def)
  next
    case (Inr files)
    have names: "simple_name x" if "x \<in> set files" for x
      using Inr w1 that readdirSync_names [of src "fs w1" files x]
      by (simp add: PX_def good_def)
    have "?I (world_of (forEach (copy_entry n PX src dest) files w1))"
    proof (rule forEach_inv [where I = ?I])
      show "?I w1" by (rule w1)
    next
      fix x and w2 :: "filesystem world"
      assume x: "x \<in> set files" and w2: "?I w2"
      have joins: "path_join src x = src @ [x]" "path_join dest x = dest @ [x]"
        by (rule path_join_simple [OF names [OF x]])+
      have region: "prefix D (dest @ [x])"
        using Suc.prems(2) by (metis prefix_order.trans prefixI)
      have simple: "\<forall>c \<in> set (dest @ [x]). simple_name c"
        using Suc.prems(3) names [OF x] by simp
      have g2: "good D (fs w2)" using w2 by simp
      show "?I (world_of (copy_entry n PX src dest x w2))"
      proof (cases "statSync PX (src @ [x]) (fs w2)")
        case (Inl e)
        with w2 show ?thesis by (simp add: copy_entry_def joins)
      next
        case (Inr stat)
        show ?thesis
        proof (cases "stat = Directory")
          case True
          have "good D (fs (world_of (copyRecursiveSync n PX (src @ [x]) (dest @ [x]) w2)))
                \<and> same_outside D (fs w2)
                     (fs (world_of (copyRecursiveSync n PX (src @ [x]) (dest @ [x]) w2)))"
            unfolding PX_def using g2 region simple by (rule Suc.IH)
          with w2 Inr True show ?thesis
            by (auto simp: copy_entry_def joins intro: same_outside_trans)
        next
          case False
          have "good D (fs (world_of (do_copyFile PX (src @ [x]) (dest @ [x]) w2)))
                \<and> same_outside D (fs w2)
                     (fs (world_of (do_copyFile PX (src @ [x]) (dest @ [x]) w2)))"
            unfolding PX_def using g2 region simple by (rule do_copyFile_good)
          with w2 Inr False show ?thesis
            by (auto simp: copy_entry_def joins intro: same_outside_trans)
        qed
      qed
    qed
    with Inr show ?thesis by (simp add: rest_def)
  qed
  have "?I (world_of (then_do first rest))"
  proof (cases first)
    case (Returns w1)
    with a b [of w1] show ?thesis by simp
  next
    case (Throws e w1)
    with a show ?thesis by simp
  qed
  then show ?case
    using run by (simp only: PX_def)
qed

lemma split_slash_segments: "\<forall>seg \<in> set (split_slash s). CHR ''/'' \<notin> set seg"
proof (induction s)
  case Nil
  then show ?case by simp
next
  case (Cons c s)
  then show ?case by (cases "split_slash s") auto
qed

lemma normalize_names:
  assumes "\<forall>c \<in> set p. simple_name c" and "\<forall>seg \<in> set segs. CHR ''/'' \<notin> set seg"
  shows "\<forall>c \<in> set (normalize p segs). simple_name c"
  using assms
proof (induction segs arbitrary: p)
  case Nil
  then show ?case by simp
next
  case (Cons s segs)
  have keep: "\<forall>c \<in> set (butlast p). simple_name c"
    using Cons.prems(1) by (auto dest: in_set_butlastD)
  have add: "\<forall>c \<in> set (p @ [s]). simple_name c" if "s \<noteq> []" "s \<noteq> ''.''" "s \<noteq> ''..''"
    using that Cons.prems by (simp add: simple_name_def)
  show ?case
    using Cons.IH [OF Cons.prems(1)] Cons.IH [OF keep] Cons.IH [OF add] Cons.prems(2)
    by simp
qed

lemma path_join_names:
  "\<forall>c \<in> set p. simple_name c \<Longrightarrow> \<forall>c \<in> set (path_join p s). simple_name c"
  unfolding path_join_def by (rule normalize_names) (simp_all add: split_slash_segments)

lemma node_modules_join: "path_join home ''node_modules'' = home @ [''node_modules'']"
  by (rule path_join_simple) (simp add: simple_name_def)

lemma package_json_join: "path_join home ''package.json'' = home @ [''package.json'']"
  by (rule path_join_simple) (simp add: simple_name_def)

lemma store_entry_posix:
  "store_entry (posix home l pr sp) name = path_join (home @ [''node_modules'']) name"
  by (simp add: store_entry_def node_modules_join)

lemma installDependencies_fs:
  "fs (world_of (installDependencies P dest dev silent w)) = fs w
   \<or> (\<exists>args io. fs (world_of (installDependencies P dest dev silent w)) =
                   snd (spawnSync P ''npm'' args dest io (fs w)))"
proof (cases "existsSync P (path_join dest ''package.json'') (fs w)")
  case False
  then show ?thesis by (simp add: installDependencies_no_manifest)
next
  case manifest: True
  show ?thesis
  proof (cases "existsSync P (path_join dest ''node_modules'') (fs w)")
    case True
    with manifest show ?thesis by (simp add: installDependencies_store_present)
  next
    case False
    have "\<exists>args io. fs (world_of (installDependencies P dest dev silent w)) =
                   snd (spawnSync P ''npm'' args dest io (fs w))"
      using manifest False unfolding installDependencies_def Let_def do_spawn_eq
      by (cases dev; cases silent; simp cong: if_cong; blast)
    then show ?thesis ..
  qed
qed

lemma walk_to_dir:
  assumes "dirs_above f t" and "lookup f t = Some Dir"
  shows "walk k f [] t = Some t"
  using walk_append [of f "[]" t k "[]"] assms by simp

lemma not_prefix_longer: "\<not> prefix (p @ [x]) p"
  by (auto dest: prefix_length_le)

lemma node_modules_outside:
  assumes "prefix q (home @ [''package.json''])"
  shows "\<not> prefix (home @ [''node_modules'']) q"
proof
  assume "prefix (home @ [''node_modules'']) q"
  then have "prefix (home @ [''node_modules'']) (home @ [''package.json''])"
    using assms by (rule prefix_order.trans)
  then show False
    by (simp add: prefix_snoc not_prefix_longer)
qed

lemma good_child:
  assumes "good D f" and "lookup f D = Some Dir"
  shows "good (D @ [x]) f"
proof -
  have "link_free f (D @ [x])"
    using assms(1) unfolding good_def link_free_def
    by (meson prefix_order.trans prefixI)
  then show ?thesis
    using assms by (simp add: good_def dirs_above_snoc)
qed

lemma outside_child: "same_outside (D @ [x]) f f' \<Longrightarrow> lookup f' D = lookup f D"
  by (simp add: same_outside_def not_prefix_longer)

lemma copy_keeps_dir:
  fixes w :: "filesystem world"
  assumes "good dest (fs w)" and "lookup (fs w) dest = Some Dir"
    and "\<forall>x \<in> set dest. simple_name x" and "\<forall>x \<in> set files. simple_name x"
  shows "lookup (fs (world_of (forEach (copy_entry n (posix d l pr sp) src dest) files w))) dest =
           Some Dir"
proof -
  define PX where "PX = posix d l pr sp"
  let ?I = "\<lambda>v :: filesystem world. good dest (fs v) \<and> lookup (fs v) dest = Some Dir"
  have "?I (world_of (forEach (copy_entry n PX src dest) files w))"
  proof (rule forEach_inv [where I = ?I])
    show "?I w" using assms by simp
  next
    fix x and v :: "filesystem world"
    assume x: "x \<in> set files" and v: "?I v"
    have name: "simple_name x" using assms(4) x by simp
    have joins: "path_join src x = src @ [x]" "path_join dest x = dest @ [x]"
      by (rule path_join_simple [OF name])+
    have simple: "\<forall>c \<in> set (dest @ [x]). simple_name c"
      using assms(3) name by simp
    have g: "good dest (fs v)" and child: "good (dest @ [x]) (fs v)"
      using v by (simp_all add: good_child)
    have below: "prefix dest (dest @ [x])" by simp
    show "?I (world_of (copy_entry n PX src dest x v))"
    proof (cases "statSync PX (src @ [x]) (fs v)")
      case (Inl e)
      with v show ?thesis by (simp add: copy_entry_def joins)
    next
      case (Inr stat)
      show ?thesis
      proof (cases "stat = Directory")
        case True
        define v' where "v' = world_of (copyRecursiveSync n PX (src @ [x]) (dest @ [x]) v)"
        have "good dest (fs v')"
          unfolding v'_def PX_def using copy_frame [OF g below simple] by simp
        moreover have "same_outside (dest @ [x]) (fs v) (fs v')"
          unfolding v'_def PX_def using copy_frame [OF child _ simple] by simp
        then have "lookup (fs v') dest = Some Dir"
          using v by (simp add: outside_child)
        ultimately show ?thesis
          using Inr True by (simp add: copy_entry_def joins v'_def)
      next
        case False
        define v' where "v' = world_of (do_copyFile PX (src @ [x]) (dest @ [x]) v)"
        have "good dest (fs v')"
          unfolding v'_def PX_def using do_copyFile_good [OF g below simple] by simp
        moreover have "same_outside (dest @ [x]) (fs v) (fs v')"
          unfolding v'_def PX_def using do_copyFile_good [OF child _ simple] by simp
        then have "lookup (fs v') dest = Some Dir"
          using v by (simp add: outside_child)
        ultimately show ?thesis
          using Inr False by (simp add: copy_entry_def joins v'_def)
      qed
    qed
  qed
  then show ?thesis by (simp add: PX_def)
qed

lemma copy_dest_dir:
  fixes w :: "filesystem world"
  assumes g: "good dest (fs w)" and absent: "lookup (fs w) dest = None"
    and simple: "\<forall>x \<in> set dest. simple_name x"
    and run: "copyRecursiveSync n (posix d l pr sp) src dest w = Returns w'"
  shows "lookup (fs w') dest = Some Dir"
proof (cases n)
  case 0
  with run show ?thesis by simp
next
  case (Suc k)
  define PX where "PX = posix d l pr sp"
  have dest_ne: "dest \<noteq> []" and above: "dirs_above (fs w) dest"
    using g by (simp_all add: good_def)
  then obtain d0 c where dest: "dest = d0 @ [c]"
    by (metis rev_exhaust)
  have "\<not> existsSync PX dest (fs w)"
    using existsSync_entry [of "fs w" d0 c] above absent by (simp add: dest PX_def)
  moreover define w1 where
    "w1 = w\<lparr>calls := calls w @ [MkdirSync dest], fs := AList.update dest Dir (fs w)\<rparr>"
  have "mkdirSync PX dest (fs w) = Inr (AList.update dest Dir (fs w))"
    using mkdirSync_entry [of "fs w" d0 c] above absent by (simp add: dest PX_def)
  then have mk: "do_mkdir PX dest w = Returns w1"
    unfolding w1_def by (rule do_mkdir_Returns)
  ultimately have unfolded: "copyRecursiveSync (Suc k) PX src dest w =
      (case readdirSync PX src (fs w1) of
         Inl e \<Rightarrow> Throws e w1
       | Inr files \<Rightarrow> forEach (copy_entry k PX src dest) files w1)"
    by (simp only: copyRecursiveSync_Suc not_False_eq_True if_True then_do_Returns)
  have "good dest (fs (world_of (do_mkdir PX dest w)))"
    unfolding PX_def using do_mkdir_good [OF g _ simple] by simp
  then have g1: "good dest (fs w1)" by (simp add: mk)
  have dir1: "lookup (fs w1) dest = Some Dir"
    using dest_ne by (simp add: w1_def lookup_update)
  from run unfolded Suc obtain files where
    files: "readdirSync PX src (fs w1) = Inr files"
    and loop: "forEach (copy_entry k PX src dest) files w1 = Returns w'"
    by (cases "readdirSync PX src (fs w1)") (simp_all add: PX_def)
  have "\<forall>x \<in> set files. simple_name x"
    using files g1 readdirSync_names [of src "fs w1" files]
    by (simp add: PX_def good_def)
  with g1 dir1 simple
  have "lookup (fs (world_of (forEach (copy_entry k PX src dest) files w1))) dest = Some Dir"
    unfolding PX_def by (rule copy_keeps_dir)
  then show ?thesis by (simp add: loop)
qed

lemma entry_preserves:
  fixes w :: "filesystem world"
  assumes ok: "project_ok home content dests (fs w)"
    and npm: "npm_contained sp"
    and member: "store_entry (posix home l pr sp) name \<in> dests"
    and run: "entry (posix home l pr sp) silent noInstall dev (name, JStr v) w = Returns w'"
  shows "project_ok home content dests (fs w')
         \<and> (\<forall>d' \<in> dests. lookup (fs w') d' =
               (if d' = store_entry (posix home l pr sp) name
                   \<and> (\<exists>t. lookup (fs w) d' = Some (Link t))
                then Some Dir else lookup (fs w) d'))"
proof -
  define PX where "PX = posix home l pr sp"
  define f where "f = fs w"
  define nm where "nm = home @ [''node_modules'']"
  define m where "m = home @ [''package.json'']"
  define dd where "dd = store_entry PX name"
  have names: "names_ok f" and above_m: "dirs_above f m"
    and manifest: "lookup f m = Some (File content)"
    and stores: "\<And>d. d \<in> dests \<Longrightarrow> store_ok f nm d"
    using ok by (simp_all add: project_ok_def f_def nm_def m_def)
  have sok: "store_ok f nm dd"
    using member by (intro stores) (simp add: dd_def PX_def)
  then have below: "strict_prefix nm dd" and above_dd: "dirs_above f dd"
    by (simp_all add: store_ok_def)
  have dd_ne: "dd \<noteq> []"
    using below by (auto simp: strict_prefix_def)
  then obtain d0 c where dd: "dd = d0 @ [c]"
    by (metis rev_exhaust)
  have ex: "existsSync PX dd (fs w) =
              (case lookup f dd of
                 None \<Rightarrow> False
               | Some (Link t) \<Rightarrow> walk 39 f [] t \<noteq> None
               | Some n \<Rightarrow> True)"
    using existsSync_entry [of f d0 c] above_dd by (simp add: dd PX_def f_def)
  have ls: "lstatSync PX dd (fs w) =
              (case lookup f dd of None \<Rightarrow> Inl ENOENT | Some n \<Rightarrow> Inr (kind n))"
    using lstatSync_entry [of f d0 c] above_dd by (simp add: dd PX_def f_def)
  have run': "entry PX silent noInstall dev (name, JStr v) w = Returns w'"
    using run by (simp add: PX_def)
  show ?thesis
  proof (cases "\<exists>t. lookup f dd = Some (Link t)")
    case False
    have "fs w' = fs w"
    proof (cases "lookup f dd")
      case None
      then have "\<not> existsSync PX (store_entry PX name) (fs w)"
        using ex by (simp add: dd_def)
      from entry_absent [OF this, of silent noInstall dev v] run' show ?thesis by auto
    next
      case (Some n)
      with False have n: "\<forall>t. n \<noteq> Link t" by simp
      then have "kind n \<noteq> SymbolicLink" by (cases n) simp_all
      moreover have "existsSync PX (store_entry PX name) (fs w)"
        using ex Some n by (cases n) (simp_all add: dd_def)
      moreover have "lstatSync PX (store_entry PX name) (fs w) = Inr (kind n)"
        using ls Some by (simp add: dd_def)
      ultimately show ?thesis
        using entry_not_symlink [of PX name w "kind n" silent noInstall dev v] run' by auto
    qed
    with ok False show ?thesis
      by (auto simp: f_def dd_def PX_def)
  next
    case True
    then obtain t where link: "lookup f dd = Some (Link t)" by blast
    have "stable f nm t"
      using sok link by (simp add: store_ok_def)
    then have "walk 39 f [] t = Some t"
      by (simp add: stable_def walk_to_dir)
    then have exists: "existsSync PX (store_entry PX name) (fs w)"
      using ex link by (simp add: dd_def)
    have symlink: "lstatSync PX (store_entry PX name) (fs w) = Inr SymbolicLink"
      using ls link by (simp add: dd_def)
    \<comment> \<open>the removal\<close>
    define w1 where "w1 = log_msg (''[REPLACE] '' @ name @
                        '': replacing symlink with copy from '' @ strip_file_prefix v) LOG silent w"
    define f_rm where "f_rm = filter (\<lambda>e. \<not> prefix dd (fst e)) f"
    define w2 where "w2 = w1\<lparr>calls := calls w1 @ [RmSync dd], fs := f_rm\<rparr>"
    have "rmSync PX dd (fs w1) = Inr f_rm"
      using rmSync_entry [of f d0 c] above_dd by (simp add: dd PX_def w1_def f_def f_rm_def)
    then have rm: "do_rm PX dd w1 = Returns w2"
      by (simp add: do_rm_Returns w2_def)
    have l_rm: "lookup f_rm q = (if prefix dd q then None else lookup f q)" for q
      unfolding f_rm_def using dd_ne by (rule lookup_remove)
    have same_rm: "same_outside dd f f_rm"
      by (simp add: same_outside_def l_rm)
    have good_rm: "good dd f_rm"
      unfolding good_def
    proof (intro conjI)
      show "dd \<noteq> []" by (rule dd_ne)
      show "dirs_above f_rm dd" using above_dd same_rm by (rule dirs_above_same)
      show "names_ok f_rm" using names by (auto simp: names_ok_def l_rm split: if_splits)
      show "link_free f_rm dd" by (simp add: link_free_def l_rm)
    qed
    \<comment> \<open>the names of the store entry\<close>
    have "lookup f nm = Some Dir"
      using above_dd below by (simp add: dirs_above_def)
    then have "\<forall>x \<in> set nm. simple_name x"
      using names unfolding names_ok_def by (metis option.distinct(1))
    then have dd_names: "\<forall>x \<in> set dd. simple_name x"
      unfolding dd_def PX_def store_entry_posix nm_def [symmetric] by (rule path_join_names)
    \<comment> \<open>the copy and the install\<close>
    define rc where
      "rc = copyRecursiveSync (stack_limit PX) PX (source_tree PX v) dd w2"
    have frame: "good dd (fs (world_of rc)) \<and> same_outside dd f_rm (fs (world_of rc))"
      using copy_frame [of dd w2 dd "stack_limit PX" home l pr sp "source_tree PX v"]
        good_rm dd_names
      by (simp add: rc_def PX_def w2_def)
    have unfolded: "entry PX silent noInstall dev (name, JStr v) w =
        then_do rc (\<lambda>w3. if \<not> noInstall then installDependencies PX dd dev silent w3
                          else Returns w3)"
    proof -
      have "entry PX silent noInstall dev (name, JStr v) w =
        then_do (do_rm PX dd w1)
          (\<lambda>w2. then_do (copyRecursiveSync (stack_limit PX) PX (source_tree PX v) dd w2)
             (\<lambda>w3. if \<not> noInstall then installDependencies PX dd dev silent w3
                   else Returns w3))"
        unfolding dd_def w1_def by (rule entry_symlink [OF exists symlink])
      then show ?thesis
        by (simp only: rm then_do_Returns rc_def)
    qed
    obtain w3 where copy: "rc = Returns w3"
      and last: "(if \<not> noInstall then installDependencies PX dd dev silent w3 else Returns w3) =
                   Returns w'"
      using run' unfolded by (cases rc) simp_all
    have good3: "good dd (fs w3)" and same3: "same_outside dd f_rm (fs w3)"
      using frame copy by simp_all
    have "fs w' = fs w3 \<or> (\<exists>args io. fs w' = snd (sp ''npm'' args dd io (fs w3)))"
    proof (cases noInstall)
      case True
      with last show ?thesis by simp
    next
      case False
      with last installDependencies_fs [of PX dd dev silent w3] show ?thesis
        by (simp add: PX_def)
    qed
    then have names': "names_ok (fs w')"
      and outside': "\<And>q. \<not> strict_prefix dd q \<Longrightarrow> lookup (fs w') q = lookup (fs w3) q"
      using npm good3 unfolding npm_contained_def good_def by metis+
    have outside: "lookup (fs w') q = lookup f q" if "\<not> prefix dd q" for q
    proof -
      have "\<not> strict_prefix dd q" using that by (simp add: strict_prefix_def)
      then have "lookup (fs w') q = lookup (fs w3) q" by (rule outside')
      also have "\<dots> = lookup f_rm q" using same3 that by (simp add: same_outside_def)
      also have "\<dots> = lookup f q" using that by (simp add: l_rm)
      finally show ?thesis .
    qed
    have at_dd: "lookup (fs w') dd = Some Dir"
    proof -
      have "lookup (fs w2) dd = None"
        by (simp add: w2_def l_rm)
      moreover have "good dd (fs w2)"
        using good_rm by (simp add: w2_def)
      moreover have "copyRecursiveSync (stack_limit PX) (posix home l pr sp)
                       (source_tree PX v) dd w2 = Returns w3"
        using copy by (simp add: rc_def PX_def)
      ultimately have "lookup (fs w3) dd = Some Dir"
        using dd_names copy_dest_dir [of dd w2 "stack_limit PX" home l pr sp "source_tree PX v" w3]
        by blast
      moreover have "lookup (fs w') dd = lookup (fs w3) dd"
        by (rule outside') simp
      ultimately show ?thesis by simp
    qed
    have apart: "\<not> prefix dd q" if "d' \<in> dests" and "prefix q d'" and "q \<noteq> dd" for q d'
    proof
      assume "prefix dd q"
      with that(3) have "strict_prefix dd q" by (simp add: strict_prefix_def)
      then have "strict_prefix dd d'"
        using that(2) by (rule prefix_order.less_le_trans)
      moreover have "dirs_above f d'"
        using stores [OF that(1)] by (simp add: store_ok_def)
      ultimately have "lookup f dd = Some Dir" by (simp add: dirs_above_def)
      with link show False by simp
    qed
    have away: "\<not> prefix dd q" if "\<not> prefix nm q" for q
    proof
      assume "prefix dd q"
      moreover have "prefix nm dd" using below by (simp add: strict_prefix_def)
      ultimately have "prefix nm q" by (meson prefix_order.trans)
      with that show False by simp
    qed
    have shrink: "lookup f d' = Some (Link t')"
      if "d' \<in> dests" and "lookup (fs w') d' = Some (Link t')" for d' t'
    proof -
      have "d' \<noteq> dd" using that(2) at_dd by auto
      then have "\<not> prefix dd d'" using that(1) by (intro apart [of d']) simp_all
      then show ?thesis using that(2) by (simp add: outside)
    qed
    have others: "lookup (fs w') d' = lookup f d'" if "d' \<in> dests" and "d' \<noteq> dd" for d'
    proof -
      have "\<not> prefix dd d'" using that by (intro apart [of d']) simp_all
      then show ?thesis by (rule outside)
    qed
    have kept: "store_ok (fs w') nm d'" if d': "d' \<in> dests" for d'
    proof -
      have s: "store_ok f nm d'" by (rule stores [OF d'])
      have "dirs_above (fs w') d'"
        unfolding dirs_above_def
      proof (intro allI impI)
        fix q assume q: "strict_prefix q d'"
        have "q \<noteq> dd"
        proof
          assume "q = dd"
          with q s have "lookup f dd = Some Dir"
            by (simp add: store_ok_def dirs_above_def)
          with link show False by simp
        qed
        then have "\<not> prefix dd q"
          using d' q by (intro apart [of d']) (simp_all add: strict_prefix_def)
        then have "lookup (fs w') q = lookup f q" by (rule outside)
        with q s show "lookup (fs w') q = Some Dir"
          by (simp add: store_ok_def dirs_above_def)
      qed
      moreover have "stable (fs w') nm t'" if "lookup (fs w') d' = Some (Link t')" for t'
      proof -
        have "lookup f d' = Some (Link t')" using d' that by (rule shrink)
        with s have st: "stable f nm t'" by (simp add: store_ok_def)
        have same: "lookup (fs w') q = lookup f q" if "prefix q t'" for q
        proof -
          have "\<not> prefix nm q"
            using st that by (auto simp: stable_def dest: prefix_order.trans)
          then have "\<not> prefix dd q" by (rule away)
          then show ?thesis by (rule outside)
        qed
        have "dirs_above (fs w') t'"
          using st same unfolding stable_def dirs_above_def
          by (simp add: strict_prefix_def)
        moreover have "lookup (fs w') t' = Some Dir"
          using st same [of t'] by (simp add: stable_def)
        ultimately show ?thesis using st by (simp add: stable_def)
      qed
      ultimately show ?thesis using s by (simp add: store_ok_def)
    qed
    have m_same: "lookup (fs w') q = lookup f q" if "prefix q m" for q
    proof -
      have "\<not> prefix nm q"
        using that unfolding nm_def m_def by (rule node_modules_outside)
      then have "\<not> prefix dd q" by (rule away)
      then show ?thesis by (rule outside)
    qed
    have "dirs_above (fs w') m"
      using above_m m_same unfolding dirs_above_def by (simp add: strict_prefix_def)
    moreover have "lookup (fs w') m = Some (File content)"
      using manifest m_same [of m] by simp
    ultimately have "project_ok home content dests (fs w')"
      using names' kept by (simp add: project_ok_def nm_def m_def)
    then show ?thesis
      using at_dd others link by (simp add: dd_def PX_def f_def)
  qed
qed

lemma store_entries_Nil [simp]: "store_entries P [] = {}"
  by (simp add: store_entries_def)

lemma store_entries_Cons:
  "store_entries P (e # es) =
     (if is_file_reference e then insert (store_entry P (fst e)) (store_entries P es)
      else store_entries P es)"
  by (simp add: store_entries_def)

lemma file_reference_string: "is_file_reference e \<Longrightarrow> \<exists>name v. e = (name, JStr v)"
  by (cases e; cases "snd e") (auto simp: is_file_reference_def)

lemma lstat_store_entry:
  assumes "store_ok f nm d"
  shows "posix_lstatSync d f = (case lookup f d of None \<Rightarrow> Inl ENOENT | Some n \<Rightarrow> Inr (kind n))"
proof -
  from assms have "d \<noteq> []" and above: "dirs_above f d"
    by (auto simp: store_ok_def strict_prefix_def)
  then obtain d0 c where "d = d0 @ [c]"
    by (metis rev_exhaust)
  with above show ?thesis
    by (simp add: lstatSync_entry)
qed

lemma kind_symlink: "kind n = SymbolicLink \<longleftrightarrow> (\<exists>t. n = Link t)"
  by (cases n) simp_all

lemma entry_physical:
  fixes w :: "filesystem world"
  assumes sok: "store_ok (fs w) nm (store_entry (posix home l pr sp) name)"
    and physical: "\<forall>t. lookup (fs w) (store_entry (posix home l pr sp) name) \<noteq> Some (Link t)"
  shows "\<exists>w'. entry (posix home l pr sp) silent noInstall dev (name, JStr v) w = Returns w'
              \<and> fs w' = fs w \<and> calls w' = calls w"
proof -
  define PX where "PX = posix home l pr sp"
  define dd where "dd = store_entry PX name"
  from sok have "dd \<noteq> []" and above: "dirs_above (fs w) dd"
    by (auto simp: store_ok_def strict_prefix_def dd_def PX_def)
  then obtain d0 c where dd: "dd = d0 @ [c]"
    by (metis rev_exhaust)
  have ex: "existsSync PX dd (fs w) =
              (case lookup (fs w) dd of
                 None \<Rightarrow> False
               | Some (Link t) \<Rightarrow> walk 39 (fs w) [] t \<noteq> None
               | Some n \<Rightarrow> True)"
    using existsSync_entry [of "fs w" d0 c] above by (simp add: dd PX_def)
  have ls: "lstatSync PX dd (fs w) =
              (case lookup (fs w) dd of None \<Rightarrow> Inl ENOENT | Some n \<Rightarrow> Inr (kind n))"
    using lstatSync_entry [of "fs w" d0 c] above by (simp add: dd PX_def)
  have "\<exists>w'. entry PX silent noInstall dev (name, JStr v) w = Returns w'
              \<and> fs w' = fs w \<and> calls w' = calls w"
  proof (cases "lookup (fs w) dd")
    case None
    then have "\<not> existsSync PX (store_entry PX name) (fs w)"
      using ex by (simp add: dd_def)
    from entry_absent [OF this, of silent noInstall dev v] show ?thesis by simp
  next
    case (Some n)
    with physical have n: "\<forall>t. n \<noteq> Link t" by (simp add: dd_def PX_def)
    then have "kind n \<noteq> SymbolicLink" by (simp add: kind_symlink)
    moreover have "existsSync PX (store_entry PX name) (fs w)"
      using ex Some n by (cases n) (simp_all add: dd_def)
    moreover have "lstatSync PX (store_entry PX name) (fs w) = Inr (kind n)"
      using ls Some by (simp add: dd_def)
    ultimately show ?thesis
      using entry_not_symlink [of PX name w "kind n" silent noInstall dev v] by simp
  qed
  then show ?thesis by (simp add: PX_def)
qed

lemma run_preserves:
  fixes w :: "filesystem world"
  assumes npm: "npm_contained sp"
  shows "project_ok home content dests (fs w) \<Longrightarrow>
         store_entries (posix home l pr sp) es \<subseteq> dests \<Longrightarrow>
         unlink_all (posix home l pr sp) silent noInstall dev es w = Returns w' \<Longrightarrow>
         project_ok home content dests (fs w')
         \<and> (\<forall>d \<in> dests. lookup (fs w') d =
               (if d \<in> store_entries (posix home l pr sp) es
                   \<and> (\<exists>t. lookup (fs w) d = Some (Link t))
                then Some Dir else lookup (fs w) d))"
proof (induction es arbitrary: w)
  case Nil
  then show ?case by simp
next
  case (Cons e es)
  define PX where "PX = posix home l pr sp"
  show ?case
  proof (cases "is_file_reference e")
    case False
    with Cons.prems have "store_entries PX es \<subseteq> dests"
      and "unlink_all PX silent noInstall dev es w = Returns w'"
      by (simp_all add: store_entries_Cons unlink_all_Cons PX_def)
    with Cons.prems(1) have "project_ok home content dests (fs w')
         \<and> (\<forall>d \<in> dests. lookup (fs w') d =
               (if d \<in> store_entries PX es \<and> (\<exists>t. lookup (fs w) d = Some (Link t))
                then Some Dir else lookup (fs w) d))"
      unfolding PX_def by (rule Cons.IH)
    with False show ?thesis
      by (simp add: store_entries_Cons PX_def)
  next
    case True
    then obtain name v where e: "e = (name, JStr v)"
      using file_reference_string by blast
    from Cons.prems(2) True have member: "store_entry PX name \<in> dests"
      and rest: "store_entries PX es \<subseteq> dests"
      by (simp_all add: store_entries_Cons e PX_def)
    from Cons.prems(3) True obtain w1 where
      first: "entry PX silent noInstall dev (name, JStr v) w = Returns w1"
      and later: "unlink_all PX silent noInstall dev es w1 = Returns w'"
      by (cases "entry PX silent noInstall dev (name, JStr v) w")
         (simp_all add: unlink_all_Cons e PX_def)
    have step: "project_ok home content dests (fs w1)
         \<and> (\<forall>d' \<in> dests. lookup (fs w1) d' =
               (if d' = store_entry PX name \<and> (\<exists>t. lookup (fs w) d' = Some (Link t))
                then Some Dir else lookup (fs w) d'))"
      unfolding PX_def
      using Cons.prems(1) npm member [unfolded PX_def] first [unfolded PX_def]
      by (rule entry_preserves)
    then have ok1: "project_ok home content dests (fs w1)" by simp
    have ih: "project_ok home content dests (fs w')
         \<and> (\<forall>d \<in> dests. lookup (fs w') d =
               (if d \<in> store_entries PX es \<and> (\<exists>t. lookup (fs w1) d = Some (Link t))
                then Some Dir else lookup (fs w1) d))"
      unfolding PX_def
      using ok1 rest [unfolded PX_def] later [unfolded PX_def] by (rule Cons.IH)
    have "lookup (fs w') d =
            (if d \<in> insert (store_entry PX name) (store_entries PX es)
                \<and> (\<exists>t. lookup (fs w) d = Some (Link t))
             then Some Dir else lookup (fs w) d)" if d: "d \<in> dests" for d
    proof -
      have a: "lookup (fs w1) d =
                 (if d = store_entry PX name \<and> (\<exists>t. lookup (fs w) d = Some (Link t))
                  then Some Dir else lookup (fs w) d)"
        using step d by blast
      have b: "lookup (fs w') d =
                 (if d \<in> store_entries PX es \<and> (\<exists>t. lookup (fs w1) d = Some (Link t))
                  then Some Dir else lookup (fs w1) d)"
        using ih d by blast
      show ?thesis
        unfolding b a by auto
    qed
    with ih True show ?thesis
      by (simp add: store_entries_Cons e PX_def)
  qed
qed

lemma run_again:
  fixes w :: "filesystem world"
  shows "\<forall>d \<in> store_entries (posix home l pr sp) es.
           store_ok (fs w) nm d \<and> (\<forall>t. lookup (fs w) d \<noteq> Some (Link t)) \<Longrightarrow>
         \<exists>w'. unlink_all (posix home l pr sp) silent noInstall dev es w = Returns w'
               \<and> fs w' = fs w \<and> calls w' = calls w"
proof (induction es arbitrary: w)
  case Nil
  then show ?case by simp
next
  case (Cons e es)
  define PX where "PX = posix home l pr sp"
  show ?case
  proof (cases "is_file_reference e")
    case False
    with Cons.prems have "\<forall>d \<in> store_entries (posix home l pr sp) es.
           store_ok (fs w) nm d \<and> (\<forall>t. lookup (fs w) d \<noteq> Some (Link t))"
      by (simp add: store_entries_Cons)
    then have "\<exists>w'. unlink_all (posix home l pr sp) silent noInstall dev es w = Returns w'
               \<and> fs w' = fs w \<and> calls w' = calls w"
      by (rule Cons.IH)
    with False show ?thesis by (simp add: unlink_all_Cons)
  next
    case True
    then obtain name v where e: "e = (name, JStr v)"
      using file_reference_string by blast
    from Cons.prems True
    have here: "store_ok (fs w) nm (store_entry (posix home l pr sp) name)"
      "\<forall>t. lookup (fs w) (store_entry (posix home l pr sp) name) \<noteq> Some (Link t)"
      and rest: "\<forall>d \<in> store_entries (posix home l pr sp) es.
           store_ok (fs w) nm d \<and> (\<forall>t. lookup (fs w) d \<noteq> Some (Link t))"
      by (simp_all add: store_entries_Cons e)
    from entry_physical [OF here, of silent noInstall dev v] obtain w1 where
      first: "entry (posix home l pr sp) silent noInstall dev (name, JStr v) w = Returns w1"
      and same: "fs w1 = fs w" "calls w1 = calls w"
      by blast
    from rest same have "\<forall>d \<in> store_entries (posix home l pr sp) es.
           store_ok (fs w1) nm d \<and> (\<forall>t. lookup (fs w1) d \<noteq> Some (Link t))"
      by simp
    then have "\<exists>w'. unlink_all (posix home l pr sp) silent noInstall dev es w1 = Returns w'
               \<and> fs w' = fs w1 \<and> calls w' = calls w1"
      by (rule Cons.IH)
    with True first same show ?thesis
      by (simp add: unlink_all_Cons e)
  qed
qed

lemma manifest_read:
  assumes "project_ok home content dests f"
  shows "readFileSync (posix home l pr sp) (path_join home ''package.json'') f = Inr content"
  using assms realpath_entry [of f home "''package.json''"]
  by (simp add: project_ok_def package_json_join posix_readFileSync_def)

lemma names_okI:
  assumes "list_all (\<lambda>e. list_all simple_name (fst e)) f"
  shows "names_ok f"
  unfolding names_ok_def
proof (intro allI impI)
  fix q assume q: "lookup f q \<noteq> None"
  show "\<forall>c \<in> set q. simple_name c"
  proof (cases "q = []")
    case True
    then show ?thesis by simp
  next
    case False
    with q have "map_of f q \<noteq> None" by (simp add: lookup_nonempty)
    then obtain n where "(q, n) \<in> set f"
      by (auto dest: map_of_SomeD)
    with assms show ?thesis
      by (auto simp: list_all_iff)
  qed
qed

lemma store_okI:
  assumes "strict_prefix nm d"
    and "list_all (\<lambda>i. lookup f (take i d) = Some Dir) [0..<length d]"
    and "case lookup f d of
           Some (Link t) \<Rightarrow>
             list_all (\<lambda>i. lookup f (take i t) = Some Dir) [0..<Suc (length t)]
             \<and> \<not> prefix nm t
         | _ \<Rightarrow> True"
  shows "store_ok f nm d"
proof -
  have "stable f nm t" if "lookup f d = Some (Link t)" for t
  proof -
    from assms(3) that
    have all: "list_all (\<lambda>i. lookup f (take i t) = Some Dir) [0..<Suc (length t)]"
      and out: "\<not> prefix nm t"
      by simp_all
    from all have "list_all (\<lambda>i. lookup f (take i t) = Some Dir) [0..<length t]"
      and "lookup f (take (length t) t) = Some Dir"
      by (simp_all add: list_all_iff)
    then show ?thesis
      using out by (simp add: stable_def dirs_aboveI)
  qed
  then show ?thesis
    using assms(1,2) by (simp add: store_ok_def dirs_aboveI)
qed

lemma project_okI:
  assumes "list_all (\<lambda>e. list_all simple_name (fst e)) f"
    and "list_all (\<lambda>i. lookup f (take i (home @ [''package.json''])) = Some Dir)
           [0..<length (home @ [''package.json''])]"
    and "lookup f (home @ [''package.json'']) = Some (File content)"
    and "list_all (\<lambda>d. strict_prefix (home @ [''node_modules'']) d
                     \<and> list_all (\<lambda>i. lookup f (take i d) = Some Dir) [0..<length d]
                     \<and> (case lookup f d of
                          Some (Link t) \<Rightarrow>
                            list_all (\<lambda>i. lookup f (take i t) = Some Dir) [0..<Suc (length t)]
                            \<and> \<not> prefix (home @ [''node_modules'']) t
                        | _ \<Rightarrow> True)) ds"
  shows "project_ok home content (set ds) f"
  unfolding project_ok_def
proof (intro conjI ballI)
  show "names_ok f" using assms(1) by (rule names_okI)
  show "dirs_above f (home @ [''package.json''])" using assms(2) by (rule dirs_aboveI)
  show "lookup f (home @ [''package.json'']) = Some (File content)" by (rule assms(3))
  fix d assume "d \<in> set ds"
  with assms(4) show "store_ok f (home @ [''node_modules'']) d"
    by (auto simp: list_all_iff intro: store_okI)
qed

lemma returned_world: "returned r \<Longrightarrow> r = Returns (world_of r)"
  by (cases r) simp_all




end
